theory Spec2Isabelle
  imports Main "HOL-Library.Multiset" "HOL-Library.Sublist" "HOL-Library.Word"
begin

section \<open>Huffman coding: the data model of Assignment.cpp\<close>

text \<open>
  The program keeps three kinds of data: the frequency table (a hand-linked list of
  character/count nodes inside class \<open>FrequencyTable\<close>), the Huffman nodes (struct
  \<open>HuffmanNode\<close>, linked by two child pointers) and the priority queue (a
  \<open>vector<HuffmanNode*>\<close> used as a binary min-heap).

  Counts are C++ \<open>int\<close>, here 32-bit words: \<open>+\<close> wraps around modulo \<open>2^32\<close>, which is
  what the compiled program does where C++ leaves signed overflow undefined, and \<open>sint\<close> reads
  the signed value that \<open><\<close> compares.

  A pointer that may be null is an \<open>option\<close>; a pointee is a value. The trees built by the
  program are never shared between two parents, so value semantics loses nothing.
  What the source reports on the console and what it would do on a null pointer are values of
  the type \<open>error\<close>.
\<close>

datatype error =
    EmptyInput          \<comment> \<open>MakeTable prints "Error! Huffman String is Empty!" and returns\<close>
  | TablePopulated      \<comment> \<open>MakeTable prints "Table is already populated!"\<close>
  | NullDereference     \<comment> \<open>a member access through a null HuffmanNode pointer\<close>

subsection \<open>class Node and class FrequencyTable\<close>

text \<open>
  The linked list starting at \<open>head\<close> is the list of its (Character, freq) pairs in link
  order; \<open>head == nullptr\<close> is the empty list.
\<close>

record FrequencyTable =
  head :: "(char \<times> 32 word) list"
  huffmanString :: string

definition FrequencyTable_new :: FrequencyTable where
  "FrequencyTable_new = \<lparr> head = [], huffmanString = [] \<rparr>"

definition sethuffmanString :: "string \<Rightarrow> FrequencyTable \<Rightarrow> FrequencyTable" where
  "sethuffmanString s t = t \<lparr> huffmanString := s \<rparr>"

definition isEmpty :: "FrequencyTable \<Rightarrow> bool" where
  "isEmpty t \<longleftrightarrow> head t = []"

text \<open>
  The inner \<open>while (temp != nullptr)\<close> loop of MakeTable: walk the list, add one to the
  first node that carries the character and stop; \<open>None\<close> is \<open>found == false\<close>.
\<close>

fun findAndIncrement :: "char \<Rightarrow> (char \<times> 32 word) list \<Rightarrow> (char \<times> 32 word) list option" where
  "findAndIncrement c [] = None"
| "findAndIncrement c ((d, f) # rest) =
     (if d = c then Some ((d, f + 1) # rest)
      else (case findAndIncrement c rest of
              None \<Rightarrow> None
            | Some rest' \<Rightarrow> Some ((d, f) # rest')))"

text \<open>One iteration of the outer \<open>for\<close> loop: a character not found is appended at the tail.\<close>

definition countCharacter :: "(char \<times> 32 word) list \<Rightarrow> char \<Rightarrow> (char \<times> 32 word) list" where
  "countCharacter nodes c =
     (case findAndIncrement c nodes of
        Some nodes' \<Rightarrow> nodes'
      | None \<Rightarrow> nodes @ [(c, 1)])"

text \<open>
  MakeTable is a \<open>void\<close> method: the result is what it reports (if anything) and the table
  afterwards.
\<close>

definition MakeTable :: "FrequencyTable \<Rightarrow> error option \<times> FrequencyTable" where
  "MakeTable t =
     (if isEmpty t then
        (if huffmanString t = [] then (Some EmptyInput, t)
         else (None, t \<lparr> head := foldl countCharacter (head t) (huffmanString t) \<rparr>))
      else (Some TablePopulated, t))"

subsection \<open>struct HuffmanNode\<close>

datatype HuffmanNode =
  HuffmanNode (Character: char) (freq: "32 word")
              (left: "HuffmanNode option") (right: "HuffmanNode option")

text \<open>The constructor \<open>HuffmanNode(C, f)\<close> sets both children to null.\<close>

definition newHuffmanNode :: "char \<Rightarrow> 32 word \<Rightarrow> HuffmanNode" where
  "newHuffmanNode C f = HuffmanNode C f None None"

text \<open>The weight of a node: the signed value of its member \<open>freq\<close>.\<close>

abbreviation weight :: "HuffmanNode \<Rightarrow> int" where
  "weight n \<equiv> sint (freq n)"

subsection \<open>class PriorityQueue\<close>

text \<open>
  The vector holds pointers to nodes that the caller has allocated, so its entries are
  nodes. \<open>swap\<close> is \<open>std::swap\<close> on two slots of the vector.
\<close>

definition swap :: "nat \<Rightarrow> nat \<Rightarrow> 'a list \<Rightarrow> 'a list" where
  "swap i j q = q[i := q ! j, j := q ! i]"

text \<open>
  heapifyUp is private and only ever called by push with \<open>index = size - 1\<close>, so every
  read is in range.
\<close>

function heapifyUp :: "HuffmanNode list \<Rightarrow> nat \<Rightarrow> HuffmanNode list" where
  "heapifyUp q index =
     (if index > 0 then
        (let parent = (index - 1) div 2 in
         if weight (q ! index) < weight (q ! parent)
         then heapifyUp (swap index parent q) parent
         else q)
      else q)"
  by pat_completeness auto
termination
  by (relation "measure snd") auto

declare heapifyUp.simps [simp del]

text \<open>
  heapifyDown reads \<open>queue[left]\<close> and \<open>queue[right]\<close> only behind the bounds tests, and
  \<open>queue[smallest]\<close> only behind one of them.
\<close>

function heapifyDown :: "HuffmanNode list \<Rightarrow> nat \<Rightarrow> HuffmanNode list" where
  "heapifyDown q index =
     (let smallest = index;
          left = 2 * index + 1;
          right = 2 * index + 2;
          smallest = (if left < length q \<and> weight (q ! left) < weight (q ! smallest)
                      then left else smallest);
          smallest = (if right < length q \<and> weight (q ! right) < weight (q ! smallest)
                      then right else smallest)
      in if smallest \<noteq> index then heapifyDown (swap index smallest q) smallest else q)"
  by pat_completeness auto
termination
  by (relation "measure (\<lambda>(q, index). length q - index)")
     (auto simp: swap_def Let_def split: if_splits)

declare heapifyDown.simps [simp del]

definition push :: "HuffmanNode list \<Rightarrow> HuffmanNode \<Rightarrow> HuffmanNode list" where
  "push q node = (let q' = q @ [node] in heapifyUp q' (length q' - 1))"

text \<open>pop returns \<open>nullptr\<close> on an empty queue and leaves it as it is.\<close>

definition pop :: "HuffmanNode list \<Rightarrow> HuffmanNode option \<times> HuffmanNode list" where
  "pop q =
     (if q = [] then (None, q)
      else (let root = q ! 0;
                q1 = q[0 := last q];
                q2 = butlast q1
            in (Some root, heapifyDown q2 0)))"

subsection \<open>class HuffmanTree\<close>

text \<open>
  buildCodes walks the tree below a pointer that may be null, carrying the path so far and
  the table it fills (the \<open>unordered_map\<close> passed by reference).
\<close>

fun buildCodes :: "HuffmanNode option \<Rightarrow> string \<Rightarrow> (char \<rightharpoonup> string) \<Rightarrow> (char \<rightharpoonup> string)" where
  "buildCodes None code codes = codes"
| "buildCodes (Some (HuffmanNode C f l r)) code codes =
     (let codes1 = (if l = None \<and> r = None then codes(C \<mapsto> code) else codes);
          codes2 = buildCodes l (code @ ''0'') codes1
      in buildCodes r (code @ ''1'') codes2)"

text \<open>
  encodeString appends to the member \<open>encodedString\<close>. \<open>codes[c]\<close> is
  \<open>unordered_map::operator[]\<close>: a key that is absent is inserted with the empty string,
  which is then the value read.
\<close>

fun encodeString :: "string \<Rightarrow> string \<times> (char \<rightharpoonup> string) \<Rightarrow> string \<times> (char \<rightharpoonup> string)" where
  "encodeString [] (encodedString, codes) = (encodedString, codes)"
| "encodeString (c # input) (encodedString, codes) =
     (case codes c of
        Some code \<Rightarrow> encodeString input (encodedString @ code, codes)
      | None \<Rightarrow> encodeString input (encodedString @ [], codes(c \<mapsto> [])))"

text \<open>The first loop of buildTree: one fresh leaf per table node, pushed in list order.\<close>

definition pushLeaves :: "(char \<times> 32 word) list \<Rightarrow> HuffmanNode list" where
  "pushLeaves nodes = foldl (\<lambda>pq (C, f). push pq (newHuffmanNode C f)) [] nodes"

text \<open>
  The second loop of buildTree. \<open>left->freq\<close> and \<open>right->freq\<close> read through what pop
  returned; a null pointer there is the error branch.
\<close>

function mergeLoop :: "HuffmanNode list \<Rightarrow> error + HuffmanNode list" where
  "mergeLoop pq =
     (if length pq > 1 then
        (case pop pq of (l, pq1) \<Rightarrow>
         (case pop pq1 of (r, pq2) \<Rightarrow>
          (case l of
             None \<Rightarrow> Inl NullDereference
           | Some ln \<Rightarrow>
             (case r of
                None \<Rightarrow> Inl NullDereference
              | Some rn \<Rightarrow>
                  mergeLoop (push pq2 (HuffmanNode (CHR 0x00) (freq ln + freq rn)
                                                   (Some ln) (Some rn)))))))
      else Inr pq)"
  by pat_completeness auto
termination
proof (relation "measure length")
  have up: "length (heapifyUp q i) = length q" for q i
  proof (induction q i rule: heapifyUp.induct)
    case (1 q index)
    then show ?case
      by (subst heapifyUp.simps) (simp add: swap_def Let_def)
  qed
  have down: "length (heapifyDown q i) = length q" for q i
  proof (induction q i rule: heapifyDown.induct)
    case (1 q index)
    then show ?case
      by (subst heapifyDown.simps) (simp add: swap_def Let_def)
  qed
  show "wf (measure length)" by simp
  fix pq :: "HuffmanNode list" and l pq1 r pq2 ln rn
  assume "1 < length pq" and 1: "(l, pq1) = pop pq" and 2: "(r, pq2) = pop pq1"
  have len_pop: "length (snd (pop q)) = length q - 1" for q
    by (simp add: pop_def Let_def down)
  have "length pq1 = length pq - 1"
    using len_pop [of pq] 1 [symmetric] by simp
  moreover have "length pq2 = length pq1 - 1"
    using len_pop [of pq1] 2 [symmetric] by simp
  ultimately have "length pq2 = length pq - 2"
    by simp
  with \<open>1 < length pq\<close>
  show "(push pq2 (HuffmanNode (CHR 0x00) (freq ln + freq rn) (Some ln) (Some rn)), pq)
          \<in> measure length"
    by (simp add: push_def Let_def up)
qed

declare mergeLoop.simps [simp del]

text \<open>buildTree returns the new value of the member \<open>root\<close>.\<close>

definition buildTree :: "FrequencyTable \<Rightarrow> error + HuffmanNode option" where
  "buildTree table =
     (case mergeLoop (pushLeaves (head table)) of
        Inl e \<Rightarrow> Inl e
      | Inr pq \<Rightarrow> Inr (fst (pop pq)))"

definition generateCodes :: "HuffmanNode option \<Rightarrow> (char \<rightharpoonup> string)" where
  "generateCodes root = buildCodes root [] Map.empty"

text \<open>
  encode clears \<open>encodedString\<close>, runs encodeString and returns the member; the table it
  was given may have grown.
\<close>

definition encode :: "string \<Rightarrow> (char \<rightharpoonup> string) \<Rightarrow> string \<times> (char \<rightharpoonup> string)" where
  "encode input codes = encodeString input ([], codes)"

text \<open>
  The loop of decode with its two variables \<open>current\<close> and \<open>decoded\<close>; \<open>b\<close> is the loop variable \<open>bit\<close>. Every bit other
  than \<open>'0'\<close> goes right. \<open>current->left\<close> on a null \<open>current\<close>, and
  \<open>current->left\<close> in the leaf test after stepping to a null child, are the error branches.
\<close>

fun decodeLoop :: "HuffmanNode option \<Rightarrow> HuffmanNode option \<Rightarrow> string \<Rightarrow> string
                     \<Rightarrow> error + (HuffmanNode option \<times> string)" where
  "decodeLoop root current [] decoded = Inr (current, decoded)"
| "decodeLoop root current (b # encoded) decoded =
     (case current of
        None \<Rightarrow> Inl NullDereference
      | Some n \<Rightarrow>
          (case (if b = CHR ''0'' then left n else right n) of
             None \<Rightarrow> Inl NullDereference
           | Some m \<Rightarrow>
               if left m = None \<and> right m = None
               then decodeLoop root root encoded (decoded @ [Character m])
               else decodeLoop root (Some m) encoded decoded))"

definition decode :: "HuffmanNode option \<Rightarrow> string \<Rightarrow> error + string" where
  "decode root encoded =
     (case decodeLoop root root encoded [] of
        Inl e \<Rightarrow> Inl e
      | Inr (current, decoded) \<Rightarrow> Inr decoded)"

subsection \<open>The steps of main\<close>

text \<open>
  Step 1 of case 1 of \<open>main\<close>: the string that was read is set on the table, which lives
  across the iterations of the menu loop, and MakeTable is called.
\<close>

definition enterString :: "string \<Rightarrow> FrequencyTable \<Rightarrow> FrequencyTable" where
  "enterString myString table = snd (MakeTable (sethuffmanString myString table))"

text \<open>
  Steps 1 to 4 of case 1 in the first iteration of the menu loop (a table that was just
  constructed): frequency table, tree, codes, encoded string, decoded string.
\<close>

definition pipeline :: "string \<Rightarrow> error + string" where
  "pipeline myString =
     (let table = enterString myString FrequencyTable_new in
      case buildTree table of
        Inl e \<Rightarrow> Inl e
      | Inr root \<Rightarrow>
          (let codes = generateCodes root;
               encoded = fst (encode myString codes)
           in decode root encoded))"

text \<open>What \<open>codes[c]\<close> reads in encodeString: the stored code, or the empty string.\<close>

definition codeOf :: "(char \<rightharpoonup> string) \<Rightarrow> char \<Rightarrow> string" where
  "codeOf codes c = (case codes c of None \<Rightarrow> [] | Some code \<Rightarrow> code)"

subsection \<open>Heap order\<close>

text \<open>
  The vector is a min-heap when no slot holds a smaller count than its parent slot
  \<open>(i - 1) / 2\<close>. The two weaker forms hold inside heapifyUp (order may fail between
  \<open>i\<close> and its parent) and inside heapifyDown (order may fail between \<open>i\<close> and its
  children).
\<close>

definition is_heap :: "HuffmanNode list \<Rightarrow> bool" where
  "is_heap q \<longleftrightarrow> (\<forall>i\<in>{1..<length q}. weight (q ! ((i - 1) div 2)) \<le> weight (q ! i))"

definition heap_except_up :: "HuffmanNode list \<Rightarrow> nat \<Rightarrow> bool" where
  "heap_except_up q i \<longleftrightarrow>
     (\<forall>j\<in>{1..<length q}. j \<noteq> i \<longrightarrow> weight (q ! ((j - 1) div 2)) \<le> weight (q ! j)) \<and>
     (\<forall>j\<in>{1..<length q}. (j - 1) div 2 = i \<longrightarrow> 0 < i \<longrightarrow>
          weight (q ! ((i - 1) div 2)) \<le> weight (q ! j))"

definition heap_except_down :: "HuffmanNode list \<Rightarrow> nat \<Rightarrow> bool" where
  "heap_except_down q i \<longleftrightarrow>
     (\<forall>j\<in>{1..<length q}. (j - 1) div 2 \<noteq> i \<longrightarrow> weight (q ! ((j - 1) div 2)) \<le> weight (q ! j)) \<and>
     (\<forall>j\<in>{1..<length q}. (j - 1) div 2 = i \<longrightarrow> 0 < i \<longrightarrow>
          weight (q ! ((i - 1) div 2)) \<le> weight (q ! j))"

text \<open>
  extract_min's sift-down as section 4.2 of the specification words it: at each step take the
  smaller of the two children, the left one when they weigh the same, and swap while that
  child is strictly smaller than the element being sifted.
\<close>

function sift_down_spec :: "HuffmanNode list \<Rightarrow> nat \<Rightarrow> HuffmanNode list" where
  "sift_down_spec q i =
     (if 2 * i + 1 < length q then
        (let child = (if 2 * i + 2 < length q \<and> weight (q ! (2 * i + 2)) < weight (q ! (2 * i + 1))
                      then 2 * i + 2 else 2 * i + 1)
         in if weight (q ! child) < weight (q ! i)
            then sift_down_spec (swap i child q) child
            else q)
      else q)"
  by pat_completeness auto
termination
  by (relation "measure (\<lambda>(q, i). length q - i)")
     (auto simp: swap_def Let_def split: if_splits)

declare sift_down_spec.simps [simp del]

text \<open>The states of a PriorityQueue object that its two operations can produce.\<close>

inductive reachable :: "HuffmanNode list \<Rightarrow> bool" where
  empty: "reachable []"
| pushed: "reachable q \<Longrightarrow> reachable (push q node)"
| popped: "reachable q \<Longrightarrow> reachable (snd (pop q))"

text \<open>
  The element that FIFO tie-breaking would extract first from a queue filled in the order
  \<open>xs\<close>: the earliest inserted one among those of minimum count.
\<close>

definition earliest_minimum :: "HuffmanNode list \<Rightarrow> HuffmanNode option" where
  "earliest_minimum xs = find (\<lambda>x. \<forall>y\<in>set xs. weight x \<le> weight y) xs"

subsection \<open>Trees\<close>

text \<open>
  A tree of the data model: every node is a Leaf (no children) or an Internal node (two
  children), and the count of every Internal node is the sum of its children's counts as the
  program adds them, in 32 bits.
\<close>

fun weight_conserved :: "HuffmanNode \<Rightarrow> bool" where
  "weight_conserved (HuffmanNode C f None None) = True"
| "weight_conserved (HuffmanNode C f (Some a) (Some b)) =
     (f = freq a + freq b \<and> weight_conserved a \<and> weight_conserved b)"
| "weight_conserved (HuffmanNode C f _ _) = False"

text \<open>
  The same with the counts read as integers: the weight of every Internal node is the sum of
  the weights of its children, with no wrap-around.
\<close>

fun weight_exact :: "HuffmanNode \<Rightarrow> bool" where
  "weight_exact (HuffmanNode C f None None) = True"
| "weight_exact (HuffmanNode C f (Some a) (Some b)) =
     (sint f = weight a + weight b \<and> weight_exact a \<and> weight_exact b)"
| "weight_exact (HuffmanNode C f _ _) = False"

text \<open>Every node has both children or none.\<close>

fun full :: "HuffmanNode \<Rightarrow> bool" where
  "full (HuffmanNode C f None None) = True"
| "full (HuffmanNode C f (Some a) (Some b)) = (full a \<and> full b)"
| "full (HuffmanNode C f _ _) = False"

text \<open>
  The leaves below a pointer from left to right, each with the path of \<open>'0'\<close> (left) and
  \<open>'1'\<close> (right) steps that leads to it.
\<close>

fun code_pairs :: "HuffmanNode option \<Rightarrow> (string \<times> char) list" where
  "code_pairs None = []"
| "code_pairs (Some (HuffmanNode C f l r)) =
     (if l = None \<and> r = None then [([], C)] else [])
     @ map (\<lambda>(p, c). (CHR ''0'' # p, c)) (code_pairs l)
     @ map (\<lambda>(p, c). (CHR ''1'' # p, c)) (code_pairs r)"

definition leaves :: "HuffmanNode \<Rightarrow> char multiset" where
  "leaves t = mset (map snd (code_pairs (Some t)))"

text \<open>The node that one round of the merge loop of buildTree allocates.\<close>

definition merged :: "HuffmanNode \<Rightarrow> HuffmanNode \<Rightarrow> HuffmanNode" where
  "merged a b = HuffmanNode (CHR 0x00) (freq a + freq b) (Some a) (Some b)"

section \<open>The frequency table\<close>

lemma countCharacter_not_Nil: "countCharacter nodes c \<noteq> []"
  by (cases nodes) (auto simp: countCharacter_def split: option.splits if_splits)

lemma foldl_countCharacter_not_Nil:
  "nodes \<noteq> [] \<or> s \<noteq> [] \<Longrightarrow> foldl countCharacter nodes s \<noteq> []"
  by (induction s arbitrary: nodes) (auto simp: countCharacter_not_Nil)

text \<open>
  C8. On an unpopulated table whose string is empty, MakeTable reports the empty-input error
  and returns with the table as it was, that is with no entries. A call that reports nothing
  never leaves a table without entries: there is no successful zero-entry table.
\<close>

theorem MakeTable_empty_input:
  assumes "isEmpty t"
  shows "MakeTable (sethuffmanString [] t) = (Some EmptyInput, sethuffmanString [] t)
         \<and> head (snd (MakeTable (sethuffmanString [] t))) = []
         \<and> (\<forall>s. fst (MakeTable (sethuffmanString s t)) = None
                 \<longrightarrow> head (snd (MakeTable (sethuffmanString s t))) \<noteq> [])"
  using assms
  by (auto simp: MakeTable_def sethuffmanString_def isEmpty_def foldl_countCharacter_not_Nil)

theorem MakeTable_empty_input_witness:
  "isEmpty FrequencyTable_new
   \<and> MakeTable (sethuffmanString [] FrequencyTable_new)
       = (Some EmptyInput, \<lparr> head = [], huffmanString = [] \<rparr>)
   \<and> fst (MakeTable (sethuffmanString ''ab'' FrequencyTable_new)) = None
   \<and> head (snd (MakeTable (sethuffmanString ''ab'' FrequencyTable_new))) \<noteq> []"
proof -
  have e: "isEmpty FrequencyTable_new"
    by (simp add: isEmpty_def FrequencyTable_new_def)
  have n: "fst (MakeTable (sethuffmanString ''ab'' FrequencyTable_new)) = None"
    by (simp add: MakeTable_def sethuffmanString_def isEmpty_def FrequencyTable_new_def)
  from MakeTable_empty_input [OF e] n e show ?thesis
    by (simp add: sethuffmanString_def FrequencyTable_new_def)
qed

lemma enterString_populated: "\<not> isEmpty t \<Longrightarrow> head (enterString s t) = head t"
  by (simp add: enterString_def MakeTable_def sethuffmanString_def isEmpty_def)

lemma enterString_fresh:
  "isEmpty t \<Longrightarrow> head (enterString s t) = (if s = [] then [] else foldl countCharacter [] s)"
  by (simp add: enterString_def MakeTable_def sethuffmanString_def isEmpty_def)

lemma enterString_runs_populated:
  "\<not> isEmpty t \<Longrightarrow> head (foldl (\<lambda>t s. enterString s t) t inputs) = head t"
proof (induction inputs arbitrary: t)
  case Nil
  then show ?case by simp
next
  case (Cons s inputs)
  have "\<not> isEmpty (enterString s t)"
    using Cons.prems enterString_populated [of t s] by (simp add: isEmpty_def)
  then show ?case
    using Cons.IH [of "enterString s t"] Cons.prems by (simp add: enterString_populated)
qed

lemma enterString_runs_fresh:
  "isEmpty t \<Longrightarrow> head (foldl (\<lambda>t s. enterString s t) t inputs) =
     (case filter (\<lambda>s. s \<noteq> []) inputs of [] \<Rightarrow> [] | s # _ \<Rightarrow> foldl countCharacter [] s)"
proof (induction inputs arbitrary: t)
  case Nil
  then show ?case by (simp add: isEmpty_def)
next
  case (Cons s inputs)
  show ?case
  proof (cases "s = []")
    case True
    then have "isEmpty (enterString s t)"
      using Cons.prems enterString_fresh [of t s] by (simp add: isEmpty_def)
    then show ?thesis
      using Cons.IH [of "enterString s t"] True by simp
  next
    case False
    then have "\<not> isEmpty (enterString s t)"
      using Cons.prems enterString_fresh [of t s] foldl_countCharacter_not_Nil [of "[]" s]
      by (simp add: isEmpty_def)
    then show ?thesis
      using enterString_runs_populated [of "enterString s t" inputs] False
            enterString_fresh [OF Cons.prems, of s]
      by simp
  qed
qed

text \<open>
  C10. On a populated table MakeTable only reports that the table is populated: whatever
  string has been set, the entries and their order stay as they were, also over any number of
  further strings entered. Starting from a new table, the entries after any run of entered
  strings are the counts of the first non-empty one.
\<close>

theorem MakeTable_populated_unchanged:
  assumes "\<not> isEmpty t"
  shows "MakeTable (sethuffmanString s t) = (Some TablePopulated, sethuffmanString s t)
         \<and> head (snd (MakeTable (sethuffmanString s t))) = head t
         \<and> head (foldl (\<lambda>t s. enterString s t) t inputs) = head t
         \<and> head (foldl (\<lambda>t s. enterString s t) FrequencyTable_new inputs) =
             (case filter (\<lambda>s. s \<noteq> []) inputs of
                [] \<Rightarrow> []
              | s # _ \<Rightarrow> foldl countCharacter [] s)"
proof -
  have "isEmpty FrequencyTable_new"
    by (simp add: isEmpty_def FrequencyTable_new_def)
  then show ?thesis
    using assms enterString_runs_populated [OF assms, of inputs]
          enterString_runs_fresh [of FrequencyTable_new inputs]
    by (simp add: MakeTable_def sethuffmanString_def isEmpty_def)
qed

theorem MakeTable_populated_unchanged_witness:
  "\<not> isEmpty \<lparr> head = [(CHR ''a'', 2), (CHR ''b'', 1)], huffmanString = ''aba'' \<rparr>
   \<and> head (snd (MakeTable (sethuffmanString ''xyz''
         \<lparr> head = [(CHR ''a'', 2), (CHR ''b'', 1)], huffmanString = ''aba'' \<rparr>)))
       = [(CHR ''a'', 2), (CHR ''b'', 1)]"
proof -
  have n: "\<not> isEmpty \<lparr> head = [(CHR ''a'', 2), (CHR ''b'', 1)], huffmanString = ''aba'' \<rparr>"
    by (simp add: isEmpty_def)
  from MakeTable_populated_unchanged [OF n, of "''xyz''" "[]"] n show ?thesis
    by (simp add: sethuffmanString_def)
qed

section \<open>The encoder\<close>

lemma codeOf_insert_empty: "codes c = None \<Longrightarrow> codeOf (codes(c \<mapsto> [])) = codeOf codes"
  by (rule ext) (simp add: codeOf_def)

lemma encodeString_step:
  "encodeString (c # input) (enc, codes) =
     encodeString input (enc @ codeOf codes c,
                         if codes c = None then codes(c \<mapsto> []) else codes)"
  by (cases "codes c") (simp_all add: codeOf_def)

lemma fst_encodeString:
  "fst (encodeString input (enc, codes)) = enc @ concat (map (codeOf codes) input)"
proof (induction input arbitrary: enc codes)
  case Nil
  then show ?case by simp
next
  case (Cons c input)
  have "codeOf (if codes c = None then codes(c \<mapsto> []) else codes) = codeOf codes"
    by (simp add: codeOf_insert_empty)
  then show ?case
    by (simp only: encodeString_step Cons.IH) simp
qed

lemma snd_encodeString:
  "snd (encodeString input (enc, codes)) c =
     (if c \<in> set input \<and> codes c = None then Some [] else codes c)"
proof (induction input arbitrary: enc codes)
  case Nil
  then show ?case by simp
next
  case (Cons d input)
  show ?case
    by (simp only: encodeString_step Cons.IH) auto
qed

text \<open>
  C9, as the code has it. encode has no failing path. It returns the concatenation of what
  \<open>codes[c]\<close> reads for each symbol, which is the empty string for a symbol without an
  entry, and it leaves every such symbol in the table with the empty code.
\<close>

theorem encode_missing_symbol_empty_code:
  "fst (encode input codes) = concat (map (codeOf codes) input)
   \<and> (\<forall>c. snd (encode input codes) c =
            (if c \<in> set input \<and> codes c = None then Some [] else codes c))"
  by (simp add: encode_def fst_encodeString snd_encodeString)

text \<open>
  C9 as stated fails: with only \<open>a\<close> in the table, encoding \<open>ab\<close> returns the bit-string
  \<open>0\<close>.
\<close>

theorem encode_missing_symbol_counterexample:
  "[CHR ''a'' \<mapsto> ''0''] (CHR ''b'') = None
   \<and> fst (encode ''ab'' [CHR ''a'' \<mapsto> ''0'']) = ''0''"
  by (simp add: encode_def)

section \<open>The singleton alphabet\<close>

text \<open>
  C1 at the input \<open>aaaa\<close>: the steps of main return the empty string, not the input.
\<close>

theorem pipeline_aaaa_not_round_trip:
  "pipeline ''aaaa'' = Inr [] \<and> pipeline ''aaaa'' \<noteq> Inr ''aaaa''"
  by code_simp

text \<open>
  C2 at the input \<open>aaaa\<close>: the table is \<open>{a: 4}\<close> and the tree is a single leaf, but the
  code of \<open>a\<close> is the empty string, the encoded string is empty and decodes to the empty
  string; the string \<open>0000\<close> that the claim expects does not decode at all.
\<close>

theorem singleton_aaaa_empty_code:
  "head (enterString ''aaaa'' FrequencyTable_new) = [(CHR ''a'', 4)]
   \<and> buildTree (enterString ''aaaa'' FrequencyTable_new)
       = Inr (Some (HuffmanNode (CHR ''a'') 4 None None))
   \<and> generateCodes (Some (HuffmanNode (CHR ''a'') 4 None None)) (CHR ''a'') = Some []
   \<and> fst (encode ''aaaa'' (generateCodes (Some (HuffmanNode (CHR ''a'') 4 None None)))) = []
   \<and> decode (Some (HuffmanNode (CHR ''a'') 4 None None)) [] = Inr []
   \<and> decode (Some (HuffmanNode (CHR ''a'') 4 None None)) ''0000'' = Inl NullDereference"
  by code_simp

section \<open>The priority queue\<close>

lemma swap_nth:
  "i < length q \<Longrightarrow> j < length q \<Longrightarrow>
   swap i j q ! k = (if k = j then q ! i else if k = i then q ! j else q ! k)"
  by (simp add: swap_def nth_list_update)

lemma length_swap [simp]: "length (swap i j q) = length q"
  by (simp add: swap_def)

lemma heap_except_up_swap:
  assumes inv: "heap_except_up q i" and i: "0 < i" "i < length q"
    and lt: "weight (q ! i) < weight (q ! ((i - 1) div 2))"
  shows "heap_except_up (swap i ((i - 1) div 2) q) ((i - 1) div 2)"
proof -
  define p where "p = (i - 1) div 2"
  have p: "p < i" "p < length q" using i by (auto simp: p_def)
  have nth: "swap i p q ! k = (if k = p then q ! i else if k = i then q ! p else q ! k)" for k
    using swap_nth [of i q p k] i p by simp
  have par: "(i - 1) div 2 = p" by (simp add: p_def)
  have lt': "weight (q ! i) < weight (q ! p)" using lt by (simp add: p_def)
  have a: "weight (q ! ((j - 1) div 2)) \<le> weight (q ! j)" if "1 \<le> j" "j < length q" "j \<noteq> i" for j
    using inv that by (auto simp: heap_except_up_def)
  have b: "weight (q ! p) \<le> weight (q ! j)" if "1 \<le> j" "j < length q" "(j - 1) div 2 = i" for j
    using inv that i by (auto simp: heap_except_up_def p_def)
  have 1: "weight (swap i p q ! ((j - 1) div 2)) \<le> weight (swap i p q ! j)"
    if j: "1 \<le> j" "j < length q" "j \<noteq> p" for j
  proof (cases "j = i")
    case True
    then show ?thesis using lt' p par by (simp add: nth)
  next
    case False
    consider "(j - 1) div 2 = i" | "(j - 1) div 2 = p" | "(j - 1) div 2 \<noteq> i" "(j - 1) div 2 \<noteq> p"
      by blast
    then show ?thesis
    proof cases
      case 1
      then show ?thesis using b [OF j(1,2)] False j p by (simp add: nth)
    next
      case 2
      then show ?thesis using a [OF j(1,2) False] False j lt' by (simp add: nth)
    next
      case 3
      then show ?thesis using a [OF j(1,2) False] False j by (simp add: nth)
    qed
  qed
  have 2: "weight (swap i p q ! ((p - 1) div 2)) \<le> weight (swap i p q ! j)"
    if j: "1 \<le> j" "j < length q" "(j - 1) div 2 = p" "0 < p" for j
  proof -
    have pp: "(p - 1) div 2 < p" using j(4) by simp
    have u: "swap i p q ! ((p - 1) div 2) = q ! ((p - 1) div 2)"
      using pp p by (simp add: nth)
    have up: "weight (q ! ((p - 1) div 2)) \<le> weight (q ! p)"
      using a [of p] p j(4) by simp
    show ?thesis
    proof (cases "j = i")
      case True
      then have "swap i p q ! j = q ! p" using p by (simp add: nth)
      then show ?thesis unfolding u using up by simp
    next
      case False
      have "j \<noteq> p" using j by auto
      then have "swap i p q ! j = q ! j" using False by (simp add: nth)
      then show ?thesis unfolding u using a [OF j(1,2) False] up j(3) by simp
    qed
  qed
  show ?thesis
    unfolding heap_except_up_def par using 1 2 by auto
qed

lemma heapifyUp_is_heap:
  "i < length q \<Longrightarrow> heap_except_up q i \<Longrightarrow> is_heap (heapifyUp q i)"
proof (induction q i rule: heapifyUp.induct)
  case (1 q index)
  show ?case
  proof (cases "0 < index \<and> weight (q ! index) < weight (q ! ((index - 1) div 2))")
    case True
    then have "heap_except_up (swap index ((index - 1) div 2) q) ((index - 1) div 2)"
      using heap_except_up_swap [OF "1.prems"(2)] "1.prems"(1) by simp
    moreover have "(index - 1) div 2 < length (swap index ((index - 1) div 2) q)"
      using "1.prems"(1) by simp
    ultimately have "is_heap (heapifyUp (swap index ((index - 1) div 2) q) ((index - 1) div 2))"
      using "1.IH" [OF _ refl] True by simp
    then show ?thesis
      using True by (subst heapifyUp.simps) (simp add: Let_def)
  next
    case False
    have "is_heap q"
      unfolding is_heap_def
    proof
      fix j assume j: "j \<in> {1..<length q}"
      show "weight (q ! ((j - 1) div 2)) \<le> weight (q ! j)"
      proof (cases "j = index")
        case True
        then show ?thesis using False j by auto
      next
        case False
        then show ?thesis using "1.prems"(2) j by (auto simp: heap_except_up_def)
      qed
    qed
    then show ?thesis
      using False by (subst heapifyUp.simps) (auto simp: Let_def)
  qed
qed

lemma push_is_heap: "is_heap q \<Longrightarrow> is_heap (push q node)"
proof -
  assume h: "is_heap q"
  have "heap_except_up (q @ [node]) (length q)"
    unfolding heap_except_up_def
  proof (intro conjI ballI impI)
    fix j assume "j \<in> {1..<length (q @ [node])}" "j \<noteq> length q"
    then have j: "1 \<le> j" "j < length q" by auto
    then have "(j - 1) div 2 < length q" by simp
    then show "weight ((q @ [node]) ! ((j - 1) div 2)) \<le> weight ((q @ [node]) ! j)"
      using h j by (auto simp: is_heap_def nth_append)
  next
    fix j assume "j \<in> {1..<length (q @ [node])}" "(j - 1) div 2 = length q"
    then have False by auto
    then show "weight ((q @ [node]) ! ((length q - 1) div 2)) \<le> weight ((q @ [node]) ! j)" ..
  qed
  then show ?thesis
    using heapifyUp_is_heap [of "length q" "q @ [node]"] by (simp add: push_def Let_def)
qed

lemma heap_except_down_swap:
  assumes inv: "heap_except_down q i"
    and s: "s < length q" "0 < s" "(s - 1) div 2 = i"
    and lt: "weight (q ! s) < weight (q ! i)"
    and least: "\<And>j. 1 \<le> j \<Longrightarrow> j < length q \<Longrightarrow> (j - 1) div 2 = i \<Longrightarrow> weight (q ! s) \<le> weight (q ! j)"
  shows "heap_except_down (swap i s q) s"
proof -
  have i: "i < s" "i < length q" using s by auto
  have nth: "swap i s q ! k = (if k = s then q ! i else if k = i then q ! s else q ! k)" for k
    using swap_nth [of i q s k] i s by simp
  have a: "weight (q ! ((j - 1) div 2)) \<le> weight (q ! j)"
    if "1 \<le> j" "j < length q" "(j - 1) div 2 \<noteq> i" for j
    using inv that by (auto simp: heap_except_down_def)
  have b: "weight (q ! ((i - 1) div 2)) \<le> weight (q ! j)"
    if "1 \<le> j" "j < length q" "(j - 1) div 2 = i" "0 < i" for j
    using inv that by (auto simp: heap_except_down_def)
  have 1: "weight (swap i s q ! ((j - 1) div 2)) \<le> weight (swap i s q ! j)"
    if j: "1 \<le> j" "j < length q" "(j - 1) div 2 \<noteq> s" for j
  proof -
    consider "j = s" | "j = i" | "j \<noteq> s" "j \<noteq> i" "(j - 1) div 2 = i"
      | "j \<noteq> s" "j \<noteq> i" "(j - 1) div 2 \<noteq> i"
      by blast
    then show ?thesis
    proof cases
      case 1
      have "swap i s q ! ((j - 1) div 2) = q ! s" using 1 s i by (simp add: nth)
      moreover have "swap i s q ! j = q ! i" using 1 by (simp add: nth)
      ultimately show ?thesis using lt by simp
    next
      case 2
      then have ipos: "0 < i" using j by simp
      have pi: "(i - 1) div 2 < i" using ipos by simp
      have "swap i s q ! ((j - 1) div 2) = q ! ((i - 1) div 2)"
        using 2 pi i by (simp add: nth)
      moreover have "swap i s q ! j = q ! s" using 2 i by (simp add: nth)
      ultimately show ?thesis using b [of s] s ipos by simp
    next
      case 3
      have "swap i s q ! ((j - 1) div 2) = q ! s" using 3 i by (simp add: nth)
      moreover have "swap i s q ! j = q ! j" using 3 by (simp add: nth)
      ultimately show ?thesis using least [OF j(1,2) 3(3)] by simp
    next
      case 4
      have "swap i s q ! ((j - 1) div 2) = q ! ((j - 1) div 2)" using 4 j by (simp add: nth)
      moreover have "swap i s q ! j = q ! j" using 4 by (simp add: nth)
      ultimately show ?thesis using a [OF j(1,2) 4(3)] by simp
    qed
  qed
  have 2: "weight (swap i s q ! ((s - 1) div 2)) \<le> weight (swap i s q ! j)"
    if j: "1 \<le> j" "j < length q" "(j - 1) div 2 = s" for j
  proof -
    have js: "s < j" using j by auto
    have "swap i s q ! ((s - 1) div 2) = q ! s" using s i by (simp add: nth)
    moreover have "swap i s q ! j = q ! j" using js i by (simp add: nth)
    moreover have "weight (q ! ((j - 1) div 2)) \<le> weight (q ! j)"
      using a [OF j(1,2)] j(3) i by simp
    ultimately show ?thesis using j(3) by simp
  qed
  show ?thesis
    unfolding heap_except_down_def using 1 2 by auto
qed

lemma children:
  "1 \<le> j \<Longrightarrow> (j - 1) div 2 = i \<longleftrightarrow> j = 2 * i + 1 \<or> j = 2 * i + 2" for i j :: nat
  by auto

lemma heap_except_down_done:
  assumes inv: "heap_except_down q i"
    and l: "\<not> (2 * i + 1 < length q \<and> weight (q ! (2 * i + 1)) < weight (q ! i))"
    and r: "\<not> (2 * i + 2 < length q \<and> weight (q ! (2 * i + 2)) < weight (q ! i))"
  shows "is_heap q"
  unfolding is_heap_def
proof
  fix j assume j: "j \<in> {1..<length q}"
  show "weight (q ! ((j - 1) div 2)) \<le> weight (q ! j)"
  proof (cases "(j - 1) div 2 = i")
    case True
    then have "j = 2 * i + 1 \<or> j = 2 * i + 2" using j children [of j i] by simp
    then show ?thesis using l r j True by auto
  next
    case False
    then show ?thesis using inv j by (auto simp: heap_except_down_def)
  qed
qed

lemma heapifyDown_is_heap:
  "heap_except_down q i \<Longrightarrow> is_heap (heapifyDown q i)"
proof (induction q i rule: heapifyDown.induct)
  case (1 q index)
  define l where "l = 2 * index + 1"
  define r where "r = 2 * index + 2"
  define s1 where "s1 = (if l < length q \<and> weight (q ! l) < weight (q ! index) then l else index)"
  define s where "s = (if r < length q \<and> weight (q ! r) < weight (q ! s1) then r else s1)"
  have unfold: "heapifyDown q index = (if s \<noteq> index then heapifyDown (swap index s q) s else q)"
    by (subst heapifyDown.simps) (simp add: Let_def s_def s1_def l_def r_def)
  show ?case
  proof (cases "s = index")
    case True
    have "\<not> (l < length q \<and> weight (q ! l) < weight (q ! index))"
      using True by (auto simp: s_def s1_def l_def r_def split: if_splits)
    moreover have "\<not> (r < length q \<and> weight (q ! r) < weight (q ! index))"
      using True by (auto simp: s_def s1_def l_def r_def split: if_splits)
    ultimately have "is_heap q"
      using heap_except_down_done [OF "1.prems"] by (simp add: l_def r_def)
    then show ?thesis using True unfold by simp
  next
    case False
    have sp: "s < length q" "0 < s" "(s - 1) div 2 = index" "weight (q ! s) < weight (q ! index)"
      using False by (auto simp: s_def s1_def l_def r_def split: if_splits)
    have least: "weight (q ! s) \<le> weight (q ! j)"
      if "1 \<le> j" "j < length q" "(j - 1) div 2 = index" for j
    proof -
      have "j = l \<or> j = r" using that children [of j index] by (simp add: l_def r_def)
      then show ?thesis
        using False that by (auto simp: s_def s1_def l_def r_def split: if_splits)
    qed
    have "heap_except_down (swap index s q) s"
      using heap_except_down_swap [OF "1.prems" sp(1,2,3,4)] least by blast
    then have "is_heap (heapifyDown (swap index s q) s)"
      by (rule "1.IH" [OF refl l_def r_def s1_def s_def False])
    then show ?thesis using False unfold by simp
  qed
qed

lemma is_heap_Nil [simp]: "is_heap []"
  by (simp add: is_heap_def)

lemma is_heap_root_min: "is_heap q \<Longrightarrow> i < length q \<Longrightarrow> weight (q ! 0) \<le> weight (q ! i)"
proof (induction i rule: less_induct)
  case (less i)
  show ?case
  proof (cases "i = 0")
    case True
    then show ?thesis by simp
  next
    case False
    then have p: "(i - 1) div 2 < i" by simp
    have "weight (q ! ((i - 1) div 2)) \<le> weight (q ! i)"
      using less.prems False by (auto simp: is_heap_def)
    moreover have "weight (q ! 0) \<le> weight (q ! ((i - 1) div 2))"
      using less.IH [OF p less.prems(1)] p less.prems(2) by simp
    ultimately show ?thesis by simp
  qed
qed

lemma heap_except_down_pop:
  assumes "is_heap q"
  shows "heap_except_down (butlast (q[0 := last q])) 0"
  unfolding heap_except_down_def
proof (intro conjI ballI impI)
  fix j assume j: "j \<in> {1..<length (butlast (q[0 := last q]))}" and p: "(j - 1) div 2 \<noteq> 0"
  have jl: "1 \<le> j" "j < length q - 1" using j by auto
  have pl: "(j - 1) div 2 < length q - 1" "(j - 1) div 2 \<noteq> 0" using jl p by auto
  have "butlast (q[0 := last q]) ! j = q ! j"
    using jl by (simp add: nth_butlast)
  moreover have "butlast (q[0 := last q]) ! ((j - 1) div 2) = q ! ((j - 1) div 2)"
    using pl by (simp add: nth_butlast)
  moreover have "weight (q ! ((j - 1) div 2)) \<le> weight (q ! j)"
    using assms jl by (auto simp: is_heap_def)
  ultimately show "weight (butlast (q[0 := last q]) ! ((j - 1) div 2))
                     \<le> weight (butlast (q[0 := last q]) ! j)"
    by simp
next
  fix j :: nat assume "0 < (0::nat)"
  then show "weight (butlast (q[0 := last q]) ! ((0 - 1) div 2))
               \<le> weight (butlast (q[0 := last q]) ! j)"
    by simp
qed

lemma mset_swap': "i < length q \<Longrightarrow> j < length q \<Longrightarrow> mset (swap i j q) = mset q"
  unfolding swap_def by (rule mset_swap)

lemma mset_heapifyUp: "i < length q \<Longrightarrow> mset (heapifyUp q i) = mset q"
proof (induction q i rule: heapifyUp.induct)
  case (1 q index)
  show ?case
  proof (cases "0 < index \<and> weight (q ! index) < weight (q ! ((index - 1) div 2))")
    case True
    have p: "(index - 1) div 2 < length q" using "1.prems" by simp
    have "mset (heapifyUp (swap index ((index - 1) div 2) q) ((index - 1) div 2))
            = mset (swap index ((index - 1) div 2) q)"
      using "1.IH" [OF _ refl] True p by simp
    then show ?thesis
      using True mset_swap' [OF "1.prems" p]
      by (subst heapifyUp.simps) (simp add: Let_def)
  next
    case False
    then show ?thesis by (subst heapifyUp.simps) (auto simp: Let_def)
  qed
qed

lemma mset_heapifyDown: "mset (heapifyDown q i) = mset q"
proof (induction q i rule: heapifyDown.induct)
  case (1 q index)
  define l where "l = 2 * index + 1"
  define r where "r = 2 * index + 2"
  define s1 where "s1 = (if l < length q \<and> weight (q ! l) < weight (q ! index) then l else index)"
  define s where "s = (if r < length q \<and> weight (q ! r) < weight (q ! s1) then r else s1)"
  have unfold: "heapifyDown q index = (if s \<noteq> index then heapifyDown (swap index s q) s else q)"
    by (subst heapifyDown.simps) (simp add: Let_def s_def s1_def l_def r_def)
  show ?case
  proof (cases "s = index")
    case True
    then show ?thesis using unfold by simp
  next
    case False
    have sp: "s < length q" "index < length q"
      using False by (auto simp: s_def s1_def l_def r_def split: if_splits)
    have "mset (heapifyDown (swap index s q) s) = mset (swap index s q)"
      by (rule "1.IH" [OF refl l_def r_def s1_def s_def False])
    then show ?thesis using False unfold mset_swap' [OF sp(2,1)] by simp
  qed
qed

lemma mset_push: "mset (push q node) = add_mset node (mset q)"
  by (simp add: push_def Let_def mset_heapifyUp)

lemma mset_remove_root: "q \<noteq> [] \<Longrightarrow> add_mset (q ! 0) (mset (butlast (q[0 := last q]))) = mset q"
proof (cases q)
  case Nil
  assume "q \<noteq> []" with Nil show ?thesis by simp
next
  case (Cons x xs)
  show ?thesis
  proof (cases "xs = []")
    case True
    then show ?thesis using Cons by simp
  next
    case False
    then have "xs = butlast xs @ [last xs]" by simp
    then have "mset xs = add_mset (last xs) (mset (butlast xs))"
      by (metis mset.simps(2) mset_append union_mset_add_mset_right add.right_neutral mset.simps(1))
    then show ?thesis using Cons False by simp
  qed
qed

lemma pop_nonempty:
  "q \<noteq> [] \<Longrightarrow> pop q = (Some (q ! 0), heapifyDown (butlast (q[0 := last q])) 0)"
  by (simp add: pop_def Let_def)

lemma mset_pop: "q \<noteq> [] \<Longrightarrow> pop q = (Some x, q') \<Longrightarrow> mset q = add_mset x (mset q')"
  using mset_remove_root [of q] by (auto simp: pop_nonempty mset_heapifyDown)

lemma pop_is_heap: "is_heap q \<Longrightarrow> is_heap (snd (pop q))"
  by (cases "q = []") (simp_all add: pop_def Let_def heapifyDown_is_heap heap_except_down_pop)

lemma reachable_is_heap: "reachable q \<Longrightarrow> is_heap q"
  by (induction rule: reachable.induct) (simp_all add: push_is_heap pop_is_heap)

lemma heapifyDown_sift_down_spec: "heapifyDown q i = sift_down_spec q i"
proof (induction q i rule: heapifyDown.induct)
  case (1 q index)
  define l where "l = 2 * index + 1"
  define r where "r = 2 * index + 2"
  define s1 where "s1 = (if l < length q \<and> weight (q ! l) < weight (q ! index) then l else index)"
  define s where "s = (if r < length q \<and> weight (q ! r) < weight (q ! s1) then r else s1)"
  define child where "child = (if r < length q \<and> weight (q ! r) < weight (q ! l) then r else l)"
  have unfold: "heapifyDown q index = (if s \<noteq> index then heapifyDown (swap index s q) s else q)"
    by (subst heapifyDown.simps) (simp add: Let_def s_def s1_def l_def r_def)
  have spec: "sift_down_spec q index =
      (if l < length q \<and> weight (q ! child) < weight (q ! index)
       then sift_down_spec (swap index child q) child else q)"
    by (subst sift_down_spec.simps) (simp add: Let_def child_def l_def r_def)
  have lr: "r < length q \<Longrightarrow> l < length q" by (simp add: l_def r_def)
  have neq: "l \<noteq> index" "r \<noteq> index" by (simp_all add: l_def r_def)
  show ?case
  proof (cases "s = index")
    case True
    have "\<not> (l < length q \<and> weight (q ! l) < weight (q ! index))"
      using True neq by (auto simp: s_def s1_def split: if_splits)
    moreover have "\<not> (r < length q \<and> weight (q ! r) < weight (q ! index))"
      using True neq by (auto simp: s_def s1_def split: if_splits)
    ultimately have "\<not> (l < length q \<and> weight (q ! child) < weight (q ! index))"
      by (auto simp: child_def)
    then show ?thesis using True unfold spec by auto
  next
    case False
    have c: "l < length q" "weight (q ! child) < weight (q ! index)" "child = s"
      using False lr by (auto simp: s_def s1_def child_def split: if_splits)
    have "heapifyDown (swap index s q) s = sift_down_spec (swap index s q) s"
      by (rule "1.IH" [OF refl l_def r_def s1_def s_def False])
    then show ?thesis using False unfold spec c by auto
  qed
qed

text \<open>
  C5. On every non-empty queue in heap order, which is every queue that push and pop produce
  from the empty one (lemma \<open>reachable_is_heap\<close>), pop returns an element of the queue whose
  count is minimal among the contents and removes exactly that element; what remains is again
  in heap order, and it is the vector obtained by moving the last element to the root and
  sifting it down as the specification words it (smaller child, left on a tie, swap only
  while that child is strictly smaller).
\<close>

theorem pop_extract_min:
  assumes "is_heap q" and "q \<noteq> []"
  shows "\<exists>x q'. pop q = (Some x, q')
           \<and> x \<in> set q \<and> (\<forall>y\<in>set q. weight x \<le> weight y)
           \<and> mset q = add_mset x (mset q')
           \<and> is_heap q'
           \<and> q' = sift_down_spec (butlast (q[0 := last q])) 0"
proof -
  let ?x = "q ! 0" and ?q' = "heapifyDown (butlast (q[0 := last q])) 0"
  have p: "pop q = (Some ?x, ?q')" using assms(2) by (rule pop_nonempty)
  have "?x \<in> set q" using assms(2) by simp
  moreover have "\<forall>y\<in>set q. weight ?x \<le> weight y"
    using is_heap_root_min [OF assms(1)] by (auto simp: in_set_conv_nth)
  moreover have "mset q = add_mset ?x (mset ?q')"
    using mset_pop [OF assms(2) p] .
  moreover have "is_heap ?q'"
    using pop_is_heap [OF assms(1)] p by simp
  moreover have "?q' = sift_down_spec (butlast (q[0 := last q])) 0"
    by (rule heapifyDown_sift_down_spec)
  ultimately show ?thesis using p by blast
qed

theorem pop_extract_min_witness:
  "is_heap [newHuffmanNode (CHR ''a'') 1, newHuffmanNode (CHR ''b'') 2,
            newHuffmanNode (CHR ''c'') 1, newHuffmanNode (CHR ''d'') 2]
   \<and> pop [newHuffmanNode (CHR ''a'') 1, newHuffmanNode (CHR ''b'') 2,
           newHuffmanNode (CHR ''c'') 1, newHuffmanNode (CHR ''d'') 2]
       = (Some (newHuffmanNode (CHR ''a'') 1),
          [newHuffmanNode (CHR ''c'') 1, newHuffmanNode (CHR ''b'') 2,
           newHuffmanNode (CHR ''d'') 2])
   \<and> (\<exists>x q'. pop [newHuffmanNode (CHR ''a'') 1, newHuffmanNode (CHR ''b'') 2,
                   newHuffmanNode (CHR ''c'') 1, newHuffmanNode (CHR ''d'') 2] = (Some x, q')
          \<and> (\<forall>y\<in>set [newHuffmanNode (CHR ''a'') 1, newHuffmanNode (CHR ''b'') 2,
                         newHuffmanNode (CHR ''c'') 1, newHuffmanNode (CHR ''d'') 2].
                 weight x \<le> weight y)
          \<and> is_heap q')"
proof -
  let ?q = "[newHuffmanNode (CHR ''a'') 1, newHuffmanNode (CHR ''b'') 2,
             newHuffmanNode (CHR ''c'') 1, newHuffmanNode (CHR ''d'') 2]"
  have h: "is_heap ?q"
    by code_simp
  have n: "?q \<noteq> []"
    by simp
  have e: "pop ?q = (Some (newHuffmanNode (CHR ''a'') 1),
                     [newHuffmanNode (CHR ''c'') 1, newHuffmanNode (CHR ''b'') 2,
                      newHuffmanNode (CHR ''d'') 2])"
    by code_simp
  from pop_extract_min [OF h n] h e show ?thesis
    by blast
qed

lemma find_append':
  "find P (xs @ ys) = (case find P xs of None \<Rightarrow> find P ys | Some x \<Rightarrow> Some x)"
  by (induction xs) auto

lemma heapifyUp_root_unchanged:
  "i < length q \<Longrightarrow> \<not> weight (q ! i) < weight (q ! 0) \<Longrightarrow> heapifyUp q i ! 0 = q ! 0"
proof (induction q i rule: heapifyUp.induct)
  case (1 q index)
  define p where "p = (index - 1) div 2"
  show ?case
  proof (cases "0 < index \<and> weight (q ! index) < weight (q ! p)")
    case True
    have p: "p < length q" "p \<noteq> 0" "index \<noteq> 0" "p \<noteq> index"
      using True "1.prems" by (auto simp: p_def intro: ccontr)
    have nth: "swap index p q ! k = (if k = p then q ! index else if k = index then q ! p else q ! k)" for k
      using swap_nth [OF "1.prems"(1) p(1)] by simp
    have "heapifyUp (swap index p q) p ! 0 = swap index p q ! 0"
    proof (rule "1.IH" [OF _ p_def])
      show "0 < index" using True by simp
      show "weight (q ! index) < weight (q ! p)" using True by simp
      show "p < length (swap index p q)" using p by simp
      show "\<not> weight (swap index p q ! p) < weight (swap index p q ! 0)"
        using "1.prems"(2) p by (simp add: nth)
    qed
    moreover have "heapifyUp q index = heapifyUp (swap index p q) p"
      using True by (subst heapifyUp.simps) (simp add: Let_def p_def)
    ultimately show ?thesis using p by (simp add: nth)
  next
    case False
    then show ?thesis by (subst heapifyUp.simps) (auto simp: Let_def p_def)
  qed
qed

lemma set_push: "set (push q x) = insert x (set q)"
  using mset_push [of q x] by (metis set_mset_add_mset_insert set_mset_mset)

lemma push_not_Nil: "push q x \<noteq> []"
  using set_push [of q x] by auto

lemma root_push:
  assumes h: "is_heap q" and ne: "q \<noteq> []"
  shows "push q x ! 0 = (if weight x < weight (q ! 0) then x else q ! 0)"
proof (cases "weight x < weight (q ! 0)")
  case True
  have hp: "is_heap (push q x)" using h by (rule push_is_heap)
  have len: "0 < length (push q x)" using push_not_Nil [of q x] by simp
  have "x \<in> set (push q x)" by (simp add: set_push)
  then obtain i where i: "i < length (push q x)" "push q x ! i = x"
    by (auto simp: in_set_conv_nth)
  have le: "weight (push q x ! 0) \<le> weight x"
    using is_heap_root_min [OF hp i(1)] i(2) by simp
  have "push q x ! 0 \<in> set (push q x)" using len by simp
  then have "push q x ! 0 = x \<or> push q x ! 0 \<in> set q" by (simp add: set_push)
  moreover have "push q x ! 0 \<notin> set q"
  proof
    assume "push q x ! 0 \<in> set q"
    then obtain j where j: "j < length q" "q ! j = push q x ! 0"
      by (auto simp: in_set_conv_nth)
    have "weight (q ! 0) \<le> weight (push q x ! 0)"
      using is_heap_root_min [OF h j(1)] j(2) by simp
    then show False using le True by simp
  qed
  ultimately show ?thesis using True by simp
next
  case False
  have "heapifyUp (q @ [x]) (length q) ! 0 = (q @ [x]) ! 0"
    using False ne by (intro heapifyUp_root_unchanged) (simp_all add: nth_append)
  then show ?thesis using False ne by (simp add: push_def Let_def nth_append)
qed

lemma pushes_invariant:
  "is_heap (foldl push [] xs) \<and> mset (foldl push [] xs) = mset xs
   \<and> (xs \<noteq> [] \<longrightarrow> earliest_minimum xs = Some (foldl push [] xs ! 0))"
proof (induction xs rule: rev_induct)
  case Nil
  then show ?case by simp
next
  case (snoc x xs)
  let ?q = "foldl push [] xs"
  have h: "is_heap ?q" and m: "mset ?q = mset xs" using snoc.IH by simp_all
  have s: "set ?q = set xs" using m by (metis set_mset_mset)
  have 1: "is_heap (foldl push [] (xs @ [x]))" using h by (simp add: push_is_heap)
  have 2: "mset (foldl push [] (xs @ [x])) = mset (xs @ [x])" using m by (simp add: mset_push)
  have 3: "earliest_minimum (xs @ [x]) = Some (foldl push [] (xs @ [x]) ! 0)"
  proof (cases "xs = []")
    case True
    have "push [] x = [x]"
      by (simp add: push_def Let_def) (subst heapifyUp.simps, simp)
    then show ?thesis using True by (simp add: earliest_minimum_def)
  next
    case False
    then have ne: "?q \<noteq> []" using m by auto
    have em: "earliest_minimum xs = Some (?q ! 0)" using snoc.IH False by simp
    have rootmin: "weight (?q ! 0) \<le> weight z" if "z \<in> set xs" for z
    proof -
      from that s have "z \<in> set ?q" by simp
      then obtain j where "j < length ?q" "?q ! j = z" unfolding in_set_conv_nth by blast
      then show ?thesis using is_heap_root_min [OF h, of j] by simp
    qed
    show ?thesis
    proof (cases "weight x < weight (?q ! 0)")
      case True
      have "find (\<lambda>z. \<forall>y\<in>set (xs @ [x]). weight z \<le> weight y) xs = None"
        using True rootmin by (fastforce simp: find_None_iff)
      moreover have "\<forall>y\<in>set (xs @ [x]). weight x \<le> weight y"
        using True rootmin by fastforce
      ultimately have "earliest_minimum (xs @ [x]) = Some x"
        unfolding earliest_minimum_def find_append' by simp
      then show ?thesis using True root_push [OF h ne, of x] by simp
    next
      case F: False
      have "?q ! 0 \<in> set xs" using ne s by (metis nth_mem length_greater_0_conv)
      have "find (\<lambda>z. \<forall>y\<in>set (xs @ [x]). weight z \<le> weight y) xs
              = find (\<lambda>z. \<forall>y\<in>set xs. weight z \<le> weight y) xs"
      proof (rule find_cong [OF refl])
        fix z assume z: "z \<in> set xs"
        show "(\<forall>y\<in>set (xs @ [x]). weight z \<le> weight y) = (\<forall>y\<in>set xs. weight z \<le> weight y)"
        proof
          assume "\<forall>y\<in>set xs. weight z \<le> weight y"
          then have "weight z \<le> weight (?q ! 0)" using \<open>?q ! 0 \<in> set xs\<close> by blast
          then have "weight z \<le> weight x" using F by simp
          then show "\<forall>y\<in>set (xs @ [x]). weight z \<le> weight y"
            using \<open>\<forall>y\<in>set xs. weight z \<le> weight y\<close> by simp
        qed simp
      qed
      then have "earliest_minimum (xs @ [x]) = Some (?q ! 0)"
        using em unfolding earliest_minimum_def find_append' by simp
      then show ?thesis using F root_push [OF h ne, of x] by simp
    qed
  qed
  show ?case using 1 2 3 by simp
qed

text \<open>
  C6, as the code has it. Elements are compared by count alone. After any run of insertions
  into an empty queue, the first extraction returns the earliest inserted element among those
  of minimum count (and nothing from an empty queue). Nothing of the kind is kept up after
  an extraction: the last element is moved to the root and stays there on a tie.
\<close>

theorem first_pop_earliest_minimum:
  "fst (pop (foldl push [] xs)) = earliest_minimum xs"
proof (cases "xs = []")
  case True
  then show ?thesis by (simp add: pop_def earliest_minimum_def)
next
  case False
  then have "foldl push [] xs \<noteq> []" using pushes_invariant [of xs] by auto
  then show ?thesis using pushes_invariant [of xs] False by (simp add: pop_nonempty)
qed

theorem first_pop_earliest_minimum_witness:
  "fst (pop (foldl push [] [newHuffmanNode (CHR ''a'') 2, newHuffmanNode (CHR ''b'') 1,
                            newHuffmanNode (CHR ''c'') 1]))
     = Some (newHuffmanNode (CHR ''b'') 1)
   \<and> earliest_minimum [newHuffmanNode (CHR ''a'') 2, newHuffmanNode (CHR ''b'') 1,
                        newHuffmanNode (CHR ''c'') 1]
     = Some (newHuffmanNode (CHR ''b'') 1)"
proof -
  have "earliest_minimum [newHuffmanNode (CHR ''a'') 2, newHuffmanNode (CHR ''b'') 1,
                          newHuffmanNode (CHR ''c'') 1]
          = Some (newHuffmanNode (CHR ''b'') 1)"
    by (simp add: earliest_minimum_def newHuffmanNode_def)
  then show ?thesis
    using first_pop_earliest_minimum
            [of "[newHuffmanNode (CHR ''a'') 2, newHuffmanNode (CHR ''b'') 1,
                  newHuffmanNode (CHR ''c'') 1]"]
    by simp
qed

text \<open>
  C6 as stated fails: after inserting \<open>a\<close>, \<open>b\<close>, \<open>c\<close>, all of count 1, the second
  extraction returns \<open>c\<close> and not \<open>b\<close>.
\<close>

theorem pop_order_not_fifo_counterexample:
  "fst (pop (foldl push [] [newHuffmanNode (CHR ''a'') 1, newHuffmanNode (CHR ''b'') 1,
                            newHuffmanNode (CHR ''c'') 1]))
     = Some (newHuffmanNode (CHR ''a'') 1)
   \<and> fst (pop (snd (pop (foldl push [] [newHuffmanNode (CHR ''a'') 1,
        newHuffmanNode (CHR ''b'') 1, newHuffmanNode (CHR ''c'') 1]))))
     = Some (newHuffmanNode (CHR ''c'') 1)
   \<and> newHuffmanNode (CHR ''c'') 1 \<noteq> newHuffmanNode (CHR ''b'') 1"
  by code_simp

section \<open>The tree builder\<close>

lemma mergeLoop_unfold:
  "mergeLoop pq =
     (if length pq > 1 then
        (case pop pq of (l, pq1) \<Rightarrow>
         (case pop pq1 of (r, pq2) \<Rightarrow>
          (case l of None \<Rightarrow> Inl NullDereference
           | Some ln \<Rightarrow> (case r of None \<Rightarrow> Inl NullDereference
              | Some rn \<Rightarrow> mergeLoop (push pq2 (merged ln rn))))))
      else Inr pq)"
  unfolding merged_def by (rule mergeLoop.simps)

lemma length_heapifyDown [simp]: "length (heapifyDown q i) = length q"
  using mset_heapifyDown [of q i] by (metis size_mset)

lemma length_push [simp]: "length (push q x) = Suc (length q)"
  using mset_push [of q x] by (metis size_mset size_add_mset)

lemma mergeLoop_step:
  assumes "1 < length pq"
  shows "\<exists>a b pq2. mset pq = add_mset a (add_mset b (mset pq2))
           \<and> mergeLoop pq = mergeLoop (push pq2 (merged a b))"
proof -
  have ne: "pq \<noteq> []" using assms by auto
  obtain a pq1 where p1: "pop pq = (Some a, pq1)" using pop_nonempty [OF ne] by blast
  have m1: "mset pq = add_mset a (mset pq1)" using mset_pop [OF ne p1] .
  then have "length pq = Suc (length pq1)" by (metis size_mset size_add_mset)
  then have ne1: "pq1 \<noteq> []" using assms by auto
  obtain b pq2 where p2: "pop pq1 = (Some b, pq2)" using pop_nonempty [OF ne1] by blast
  have m2: "mset pq1 = add_mset b (mset pq2)" using mset_pop [OF ne1 p2] .
  have "mergeLoop pq = mergeLoop (push pq2 (merged a b))"
    using assms p1 p2 by (subst mergeLoop_unfold) simp
  then show ?thesis using m1 m2 by auto
qed

lemma mergeLoop_invariant:
  fixes g :: "HuffmanNode \<Rightarrow> 'a::comm_monoid_add"
  assumes merge_P: "\<And>a b. P a \<Longrightarrow> P b \<Longrightarrow> P (merged a b)"
    and merge_g: "\<And>a b. g (merged a b) = g a + g b"
  shows "pq \<noteq> [] \<Longrightarrow> \<forall>n\<in>set pq. P n \<Longrightarrow>
         \<exists>t. mergeLoop pq = Inr [t] \<and> P t \<and> g t = sum_mset (image_mset g (mset pq))"
proof (induction "length pq" arbitrary: pq rule: less_induct)
  case less
  show ?case
  proof (cases "1 < length pq")
    case False
    then obtain t where t: "pq = [t]" using less.prems(1)
      by (cases pq) auto
    then have "mergeLoop pq = Inr [t]" by (subst mergeLoop_unfold) simp
    then show ?thesis using less.prems(2) t by simp
  next
    case True
    from mergeLoop_step [OF True] obtain a b pq2
      where m: "mset pq = add_mset a (add_mset b (mset pq2))"
        and e: "mergeLoop pq = mergeLoop (push pq2 (merged a b))" by blast
    have len: "length pq = Suc (Suc (length pq2))"
      using m by (metis size_mset size_add_mset)
    have s: "set pq = insert a (insert b (set pq2))"
      using m by (metis set_mset_add_mset_insert set_mset_mset)
    have Pm: "P (merged a b)" using less.prems(2) s merge_P by simp
    have "\<exists>t. mergeLoop (push pq2 (merged a b)) = Inr [t] \<and> P t
             \<and> g t = sum_mset (image_mset g (mset (push pq2 (merged a b))))"
    proof (rule less.hyps)
      show "length (push pq2 (merged a b)) < length pq" using len by simp
      show "push pq2 (merged a b) \<noteq> []" by (rule push_not_Nil)
      show "\<forall>n\<in>set (push pq2 (merged a b)). P n"
        using Pm less.prems(2) s by (simp add: set_push)
    qed
    then obtain t where t: "mergeLoop (push pq2 (merged a b)) = Inr [t]" "P t"
      "g t = sum_mset (image_mset g (mset (push pq2 (merged a b))))" by blast
    have "g t = sum_mset (image_mset g (mset pq))"
      using t(3) m by (simp add: mset_push merge_g add.assoc)
    then show ?thesis using t e by simp
  qed
qed

lemma mset_pushLeaves:
  "mset (pushLeaves nodes) = mset (map (\<lambda>(C, f). newHuffmanNode C f) nodes)"
  unfolding pushLeaves_def
  by (induction nodes rule: rev_induct) (auto simp: mset_push)

lemma buildTree_empty: "head table = [] \<Longrightarrow> buildTree table = Inr None"
  by (simp add: buildTree_def pushLeaves_def pop_def) (subst mergeLoop.simps, simp add: pop_def)

lemma buildTree_invariant:
  fixes g :: "HuffmanNode \<Rightarrow> 'a::comm_monoid_add"
  assumes merge_P: "\<And>a b. P a \<Longrightarrow> P b \<Longrightarrow> P (merged a b)"
    and merge_g: "\<And>a b. g (merged a b) = g a + g b"
    and leaf_P: "\<And>C f. P (newHuffmanNode C f)"
    and ne: "head table \<noteq> []"
  shows "\<exists>t. buildTree table = Inr (Some t) \<and> P t
           \<and> g t = sum_list (map (\<lambda>(C, f). g (newHuffmanNode C f)) (head table))"
proof -
  let ?pq = "pushLeaves (head table)"
  have m: "mset ?pq = mset (map (\<lambda>(C, f). newHuffmanNode C f) (head table))"
    by (rule mset_pushLeaves)
  then have "set ?pq = set (map (\<lambda>(C, f). newHuffmanNode C f) (head table))"
    by (metis set_mset_mset)
  then have all: "\<forall>n\<in>set ?pq. P n" using leaf_P by auto
  have "length ?pq = length (head table)" using m by (metis size_mset length_map)
  then have "?pq \<noteq> []" using ne by auto
  from mergeLoop_invariant [of P g, OF merge_P merge_g this all]
  obtain t where t: "mergeLoop ?pq = Inr [t]" "P t"
    "g t = sum_mset (image_mset g (mset ?pq))" by blast
  have "sum_mset (image_mset g (mset ?pq))
          = sum_list (map g (map (\<lambda>(C, f). newHuffmanNode C f) (head table)))"
    unfolding m by (metis mset_map sum_mset_sum_list)
  also have "\<dots> = sum_list (map (\<lambda>(C, f). g (newHuffmanNode C f)) (head table))"
    by (simp add: comp_def case_prod_unfold)
  finally have "g t = sum_list (map (\<lambda>(C, f). g (newHuffmanNode C f)) (head table))"
    using t(3) by simp
  moreover have "buildTree table = Inr (Some t)"
    using t(1) by (simp add: buildTree_def pop_def Let_def)
  ultimately show ?thesis using t(2) by blast
qed

lemma weight_conserved_merged:
  "weight_conserved a \<Longrightarrow> weight_conserved b \<Longrightarrow> weight_conserved (merged a b)"
  by (simp add: merged_def)

lemma full_merged: "full a \<Longrightarrow> full b \<Longrightarrow> full (merged a b)"
  by (simp add: merged_def)

lemma leaves_merged: "leaves (merged a b) = leaves a + leaves b"
  by (simp add: leaves_def merged_def comp_def case_prod_unfold)

lemma leaves_newHuffmanNode: "leaves (newHuffmanNode C f) = {#C#}"
  by (simp add: leaves_def newHuffmanNode_def)

lemma sint_add_no_overflow:
  fixes a b :: "32 word"
  assumes "0 \<le> sint a" and "0 \<le> sint b" and "sint a + sint b < 2 ^ 31"
  shows "sint (a + b) = sint a + sint b"
  using assms by (simp add: sint_word_ariths signed_take_bit_int_eq_self)

lemma sum_mset_weight_nonneg:
  "\<forall>n\<in>#M. 0 \<le> weight n \<Longrightarrow> 0 \<le> sum_mset (image_mset weight M)"
  by (induction M) auto

lemma mergeLoop_multiset_invariant:
  assumes step: "\<And>a b M. I (add_mset a (add_mset b M)) \<Longrightarrow> I (add_mset (merged a b) M)"
  shows "pq \<noteq> [] \<Longrightarrow> I (mset pq) \<Longrightarrow> \<exists>t. mergeLoop pq = Inr [t] \<and> I {#t#}"
proof (induction "length pq" arbitrary: pq rule: less_induct)
  case less
  show ?case
  proof (cases "1 < length pq")
    case False
    then obtain t where t: "pq = [t]" using less.prems(1)
      by (cases pq) auto
    then have "mergeLoop pq = Inr [t]" by (subst mergeLoop_unfold) simp
    then show ?thesis using less.prems(2) t by simp
  next
    case True
    from mergeLoop_step [OF True] obtain a b pq2
      where m: "mset pq = add_mset a (add_mset b (mset pq2))"
        and e: "mergeLoop pq = mergeLoop (push pq2 (merged a b))" by blast
    have len: "length pq = Suc (Suc (length pq2))"
      using m by (metis size_mset size_add_mset)
    have "\<exists>t. mergeLoop (push pq2 (merged a b)) = Inr [t] \<and> I {#t#}"
    proof (rule less.hyps)
      show "length (push pq2 (merged a b)) < length pq" using len by simp
      show "push pq2 (merged a b) \<noteq> []" by (rule push_not_Nil)
      show "I (mset (push pq2 (merged a b)))"
        using step [of a b "mset pq2"] less.prems(2) m by (simp add: mset_push)
    qed
    then show ?thesis using e by simp
  qed
qed

lemma buildTree_multiset_invariant:
  assumes step: "\<And>a b M. I (add_mset a (add_mset b M)) \<Longrightarrow> I (add_mset (merged a b) M)"
    and ne: "head table \<noteq> []"
    and init: "I (mset (map (\<lambda>(C, f). newHuffmanNode C f) (head table)))"
  shows "\<exists>t. buildTree table = Inr (Some t) \<and> I {#t#}"
proof -
  let ?pq = "pushLeaves (head table)"
  have m: "mset ?pq = mset (map (\<lambda>(C, f). newHuffmanNode C f) (head table))"
    by (rule mset_pushLeaves)
  have "length ?pq = length (head table)" using m by (metis size_mset length_map)
  then have "?pq \<noteq> []" using ne by auto
  from mergeLoop_multiset_invariant [of I, OF step this] init m
  obtain t where t: "mergeLoop ?pq = Inr [t]" "I {#t#}" by auto
  have "buildTree table = Inr (Some t)"
    using t(1) by (simp add: buildTree_def pop_def Let_def)
  then show ?thesis using t(2) by blast
qed

lemma buildTree_exact:
  assumes ne: "head table \<noteq> []"
    and nonneg: "\<forall>(C, f)\<in>set (head table). 0 \<le> sint f"
    and bound: "sum_list (map (\<lambda>(C, f). sint f) (head table)) < 2 ^ 31"
  shows "\<exists>t. buildTree table = Inr (Some t) \<and> weight_exact t
           \<and> weight t = sum_list (map (\<lambda>(C, f). sint f) (head table))"
proof -
  define T where "T = sum_list (map (\<lambda>(C, f). sint f) (head table))"
  define I where "I M \<longleftrightarrow> (\<forall>n\<in>#M. weight_exact n \<and> 0 \<le> weight n)
                          \<and> sum_mset (image_mset weight M) = T" for M
  have step: "I (add_mset (merged a b) M)" if i: "I (add_mset a (add_mset b M))" for a b M
  proof -
    have ab: "weight_exact a" "weight_exact b" "0 \<le> weight a" "0 \<le> weight b"
      and rest: "\<forall>n\<in>#M. weight_exact n \<and> 0 \<le> weight n"
      and total: "weight a + weight b + sum_mset (image_mset weight M) = T"
      using i by (auto simp: I_def)
    have "0 \<le> sum_mset (image_mset weight M)"
      using rest by (intro sum_mset_weight_nonneg) auto
    then have "weight a + weight b < 2 ^ 31" using total bound by (simp add: T_def)
    then have w: "weight (merged a b) = weight a + weight b"
      using sint_add_no_overflow [OF ab(3,4)] by (simp add: merged_def)
    then have "weight_exact (merged a b)" using ab by (simp add: merged_def)
    then show ?thesis using w ab rest total by (simp add: I_def)
  qed
  have init: "I (mset (map (\<lambda>(C, f). newHuffmanNode C f) (head table)))"
  proof -
    have "sum_list (map weight (map (\<lambda>(C, f). newHuffmanNode C f) xs))
            = sum_list (map (\<lambda>(C, f). sint f) xs)" for xs :: "(char \<times> 32 word) list"
      by (induction xs) (auto simp: newHuffmanNode_def)
    then have "sum_mset (image_mset weight (mset (map (\<lambda>(C, f). newHuffmanNode C f) (head table))))
                 = T"
      unfolding T_def by (metis mset_map sum_mset_sum_list)
    moreover have "\<forall>n\<in>set (map (\<lambda>(C, f). newHuffmanNode C f) (head table)).
                      weight_exact n \<and> 0 \<le> weight n"
      using nonneg by (auto simp: newHuffmanNode_def)
    ultimately show ?thesis by (simp add: I_def)
  qed
  from buildTree_multiset_invariant [of I, OF step ne init]
  obtain t where "buildTree table = Inr (Some t)" "I {#t#}" by blast
  then show ?thesis by (auto simp: I_def T_def)
qed

text \<open>
  C4. buildTree always returns. From a table without entries it returns no tree; from any other
  table it returns a tree made of Leaves and Internal nodes in which the count of every
  Internal node is the sum of the counts of its two children, and the count of the root is the
  sum of all counts of the table, as the program's 32-bit addition computes these sums. When
  no count is negative and the counts total less than \<open>2^31\<close>, nothing wraps around: the
  sums are the sums of the integers.
\<close>

theorem buildTree_weight_conservation:
  "(head table = [] \<longrightarrow> buildTree table = Inr None)
   \<and> (head table \<noteq> [] \<longrightarrow>
        (\<exists>t. buildTree table = Inr (Some t) \<and> weight_conserved t
              \<and> freq t = sum_list (map snd (head table))
              \<and> ((\<forall>(C, f)\<in>set (head table). 0 \<le> sint f)
                   \<and> sum_list (map (\<lambda>(C, f). sint f) (head table)) < 2 ^ 31
                  \<longrightarrow> weight_exact t
                      \<and> weight t = sum_list (map (\<lambda>(C, f). sint f) (head table)))))"
proof (intro conjI impI)
  assume "head table = []"
  then show "buildTree table = Inr None" by (rule buildTree_empty)
next
  assume ne: "head table \<noteq> []"
  have "\<exists>t. buildTree table = Inr (Some t) \<and> weight_conserved t
          \<and> freq t = sum_list (map (\<lambda>(C, f). freq (newHuffmanNode C f)) (head table))"
    by (rule buildTree_invariant [of weight_conserved freq, OF weight_conserved_merged _ _ ne])
       (simp_all add: merged_def newHuffmanNode_def)
  moreover have "map (\<lambda>(C, f). freq (newHuffmanNode C f)) (head table) = map snd (head table)"
    by (simp add: newHuffmanNode_def case_prod_unfold)
  ultimately obtain t where t: "buildTree table = Inr (Some t)" "weight_conserved t"
    "freq t = sum_list (map snd (head table))" by auto
  have "weight_exact t \<and> weight t = sum_list (map (\<lambda>(C, f). sint f) (head table))"
    if "(\<forall>(C, f)\<in>set (head table). 0 \<le> sint f)
         \<and> sum_list (map (\<lambda>(C, f). sint f) (head table)) < 2 ^ 31"
    using buildTree_exact [OF ne] that t(1) by auto
  then show "\<exists>t. buildTree table = Inr (Some t) \<and> weight_conserved t
              \<and> freq t = sum_list (map snd (head table))
              \<and> ((\<forall>(C, f)\<in>set (head table). 0 \<le> sint f)
                   \<and> sum_list (map (\<lambda>(C, f). sint f) (head table)) < 2 ^ 31
                  \<longrightarrow> weight_exact t
                      \<and> weight t = sum_list (map (\<lambda>(C, f). sint f) (head table)))"
    using t by blast
qed

theorem buildTree_weight_conservation_witness:
  "head (enterString ''aabc'' FrequencyTable_new)
       = [(CHR ''a'', 2), (CHR ''b'', 1), (CHR ''c'', 1)]
   \<and> sum_list (map (\<lambda>(C, f). sint f) (head (enterString ''aabc'' FrequencyTable_new))) = 4
   \<and> buildTree (enterString ''aabc'' FrequencyTable_new)
       = Inr (Some (HuffmanNode (CHR 0x00) 4
                      (Some (HuffmanNode (CHR ''a'') 2 None None))
                      (Some (HuffmanNode (CHR 0x00) 2
                               (Some (HuffmanNode (CHR ''b'') 1 None None))
                               (Some (HuffmanNode (CHR ''c'') 1 None None))))))
   \<and> weight_conserved (HuffmanNode (CHR 0x00) 4
                      (Some (HuffmanNode (CHR ''a'') 2 None None))
                      (Some (HuffmanNode (CHR 0x00) 2
                               (Some (HuffmanNode (CHR ''b'') 1 None None))
                               (Some (HuffmanNode (CHR ''c'') 1 None None)))))
   \<and> weight_exact (HuffmanNode (CHR 0x00) 4
                      (Some (HuffmanNode (CHR ''a'') 2 None None))
                      (Some (HuffmanNode (CHR 0x00) 2
                               (Some (HuffmanNode (CHR ''b'') 1 None None))
                               (Some (HuffmanNode (CHR ''c'') 1 None None)))))"
proof -
  let ?table = "enterString ''aabc'' FrequencyTable_new"
  let ?t = "HuffmanNode (CHR 0x00) 4
                      (Some (HuffmanNode (CHR ''a'') 2 None None))
                      (Some (HuffmanNode (CHR 0x00) 2
                               (Some (HuffmanNode (CHR ''b'') 1 None None))
                               (Some (HuffmanNode (CHR ''c'') 1 None None))))"
  have h: "head ?table = [(CHR ''a'', 2), (CHR ''b'', 1), (CHR ''c'', 1)]"
    by code_simp
  have n: "head ?table \<noteq> []"
    by (simp add: h)
  have p: "\<forall>(C, f)\<in>set (head ?table). 0 \<le> sint f"
    by (simp add: h)
  have s: "sum_list (map (\<lambda>(C, f). sint f) (head ?table)) = 4"
    by (simp add: h)
  have b: "buildTree ?table = Inr (Some ?t)"
    by code_simp
  from buildTree_weight_conservation [of ?table] n p s
  obtain t where t: "buildTree ?table = Inr (Some t)" "weight_conserved t" "weight_exact t"
    by auto
  then have "t = ?t" using b by simp
  then have "weight_conserved ?t" "weight_exact ?t" using t by simp_all
  then show ?thesis using h s b by blast
qed

text \<open>
  Beyond that bound the sum wraps around: the counts \<open>2147483647\<close> and \<open>1\<close> give a root
  of weight \<open>-2147483648\<close>.
\<close>

lemma buildTree_overflow_example:
  "buildTree \<lparr> head = [(CHR ''a'', 2147483647), (CHR ''b'', 1)], huffmanString = [] \<rparr>
     = Inr (Some (HuffmanNode (CHR 0x00) (- 2147483648)
                    (Some (HuffmanNode (CHR ''b'') 1 None None))
                    (Some (HuffmanNode (CHR ''a'') 2147483647 None None))))
   \<and> sint (- 2147483648 :: 32 word) = - 2147483648"
  by code_simp

section \<open>The code generator\<close>

lemma buildCodes_sound:
  "buildCodes t code codes c = Some p \<Longrightarrow>
     codes c = Some p \<or> (\<exists>path. p = code @ path \<and> (path, c) \<in> set (code_pairs t))"
proof (induction t code codes arbitrary: p rule: buildCodes.induct)
  case (1 code codes)
  then show ?case by simp
next
  case (2 C f l r code codes)
  define codes1 where "codes1 = (if l = None \<and> r = None then codes(C \<mapsto> code) else codes)"
  define codes2 where "codes2 = buildCodes l (code @ ''0'') codes1"
  have res: "buildCodes r (code @ ''1'') codes2 c = Some p"
    using "2.prems" by (simp add: Let_def codes1_def codes2_def)
  from "2.IH"(2) [OF codes1_def codes2_def res]
  consider "codes2 c = Some p"
    | path where "p = (code @ ''1'') @ path" "(path, c) \<in> set (code_pairs r)"
    by blast
  then show ?case
  proof cases
    case 1
    then have "buildCodes l (code @ ''0'') codes1 c = Some p" by (simp add: codes2_def)
    from "2.IH"(1) [OF codes1_def this]
    consider "codes1 c = Some p"
      | path where "p = (code @ ''0'') @ path" "(path, c) \<in> set (code_pairs l)"
      by blast
    then show ?thesis
    proof cases
      case 1
      then show ?thesis by (auto simp: codes1_def split: if_splits)
    next
      case 2
      then have "(CHR ''0'' # path, c) \<in> set (code_pairs (Some (HuffmanNode C f l r)))"
        by force
      then show ?thesis using 2(1) by (intro disjI2 exI [of _ "CHR ''0'' # path"]) simp
    qed
  next
    case 2
    then have "(CHR ''1'' # path, c) \<in> set (code_pairs (Some (HuffmanNode C f l r)))"
      by force
    then show ?thesis using 2(1) by (intro disjI2 exI [of _ "CHR ''1'' # path"]) simp
  qed
qed

lemma code_pairs_prefix:
  "(p1, c1) \<in> set (code_pairs t) \<Longrightarrow> (p2, c2) \<in> set (code_pairs t) \<Longrightarrow> prefix p1 p2
     \<Longrightarrow> p1 = p2 \<and> c1 = c2"
proof (induction t arbitrary: p1 p2 rule: code_pairs.induct)
  case 1
  then show ?case by simp
next
  case (2 C f l r)
  show ?case
  proof (cases "l = None \<and> r = None")
    case True
    then show ?thesis using "2.prems" by simp
  next
    case False
    from "2.prems"(1) False consider
      q1 where "p1 = CHR ''0'' # q1" "(q1, c1) \<in> set (code_pairs l)"
      | q1 where "p1 = CHR ''1'' # q1" "(q1, c1) \<in> set (code_pairs r)"
      by auto
    then show ?thesis
    proof cases
      case 1
      from "2.prems"(2,3) False 1(1) obtain q2
        where q2: "p2 = CHR ''0'' # q2" "(q2, c2) \<in> set (code_pairs l)"
        by auto
      then have "prefix q1 q2" using "2.prems"(3) 1(1) by simp
      from "2.IH"(1) [OF 1(2) q2(2) this] show ?thesis using 1(1) q2(1) by simp
    next
      case 2
      from "2.prems"(2,3) False 2(1) obtain q2
        where q2: "p2 = CHR ''1'' # q2" "(q2, c2) \<in> set (code_pairs r)"
        by auto
      then have "prefix q1 q2" using "2.prems"(3) 2(1) by simp
      from "2.IH"(2) [OF 2(2) q2(2) this] show ?thesis using 2(1) q2(1) by simp
    qed
  qed
qed

lemma generateCodes_sound:
  "generateCodes root c = Some p \<Longrightarrow> (p, c) \<in> set (code_pairs root)"
  using buildCodes_sound [of root "[]" Map.empty c p] by (simp add: generateCodes_def)

text \<open>
  C3. In the code table generated from a tree that buildTree returned, no code is a proper
  prefix of another code; the codes of two different symbols are not even prefixes of one
  another, so they differ.
\<close>

theorem generated_codes_prefix_free:
  assumes "buildTree table = Inr root"
    and "generateCodes root c1 = Some p1" and "generateCodes root c2 = Some p2"
  shows "\<not> strict_prefix p1 p2 \<and> (c1 \<noteq> c2 \<longrightarrow> \<not> prefix p1 p2)"
proof -
  have "p1 = p2 \<and> c1 = c2" if "prefix p1 p2"
    using code_pairs_prefix [OF generateCodes_sound [OF assms(2)]
                                generateCodes_sound [OF assms(3)] that] .
  then show ?thesis by (auto simp: strict_prefix_def)
qed

theorem generated_codes_prefix_free_witness:
  "buildTree (enterString ''aabc'' FrequencyTable_new)
       = Inr (Some (HuffmanNode (CHR 0x00) 4
                      (Some (HuffmanNode (CHR ''a'') 2 None None))
                      (Some (HuffmanNode (CHR 0x00) 2
                               (Some (HuffmanNode (CHR ''b'') 1 None None))
                               (Some (HuffmanNode (CHR ''c'') 1 None None))))))
   \<and> generateCodes (Some (HuffmanNode (CHR 0x00) 4
                      (Some (HuffmanNode (CHR ''a'') 2 None None))
                      (Some (HuffmanNode (CHR 0x00) 2
                               (Some (HuffmanNode (CHR ''b'') 1 None None))
                               (Some (HuffmanNode (CHR ''c'') 1 None None)))))) (CHR ''b'')
       = Some ''10''
   \<and> generateCodes (Some (HuffmanNode (CHR 0x00) 4
                      (Some (HuffmanNode (CHR ''a'') 2 None None))
                      (Some (HuffmanNode (CHR 0x00) 2
                               (Some (HuffmanNode (CHR ''b'') 1 None None))
                               (Some (HuffmanNode (CHR ''c'') 1 None None)))))) (CHR ''c'')
       = Some ''11''
   \<and> \<not> strict_prefix ''10'' ''11'' \<and> \<not> prefix ''10'' ''11''"
proof -
  let ?t = "Some (HuffmanNode (CHR 0x00) 4
                      (Some (HuffmanNode (CHR ''a'') 2 None None))
                      (Some (HuffmanNode (CHR 0x00) 2
                               (Some (HuffmanNode (CHR ''b'') 1 None None))
                               (Some (HuffmanNode (CHR ''c'') 1 None None)))))"
  have b: "buildTree (enterString ''aabc'' FrequencyTable_new) = Inr ?t"
    by code_simp
  have 1: "generateCodes ?t (CHR ''b'') = Some ''10''"
    by (simp add: generateCodes_def)
  have 2: "generateCodes ?t (CHR ''c'') = Some ''11''"
    by (simp add: generateCodes_def)
  from generated_codes_prefix_free [OF b 1 2] b 1 2 show ?thesis
    by simp
qed

subsection \<open>The table that MakeTable fills\<close>

lemma findAndIncrement_None: "findAndIncrement c nodes = None \<longleftrightarrow> c \<notin> fst ` set nodes"
  by (induction nodes) (auto split: option.splits if_splits)

lemma findAndIncrement_Some:
  "findAndIncrement c nodes = Some nodes' \<Longrightarrow> map fst nodes' = map fst nodes"
  by (induction nodes arbitrary: nodes') (auto split: option.splits if_splits)

lemma countCharacter_keys:
  "map fst (countCharacter nodes c) =
     (if c \<in> fst ` set nodes then map fst nodes else map fst nodes @ [c])"
proof (cases "findAndIncrement c nodes")
  case None
  then show ?thesis using findAndIncrement_None [of c nodes] by (simp add: countCharacter_def)
next
  case (Some nodes')
  then have "c \<in> fst ` set nodes" using findAndIncrement_None [of c nodes] by auto
  then show ?thesis using Some findAndIncrement_Some [OF Some] by (simp add: countCharacter_def)
qed

lemma foldl_countCharacter_keys:
  "distinct (map fst nodes) \<Longrightarrow>
     distinct (map fst (foldl countCharacter nodes s))
     \<and> set (map fst (foldl countCharacter nodes s)) = set (map fst nodes) \<union> set s"
proof (induction s arbitrary: nodes)
  case Nil
  then show ?case by simp
next
  case (Cons c s)
  have d: "distinct (map fst (countCharacter nodes c))"
    using Cons.prems by (auto simp: countCharacter_keys)
  have "set (map fst (countCharacter nodes c)) = insert c (set (map fst nodes))"
    by (auto simp: countCharacter_keys)
  then show ?case using Cons.IH [OF d] by auto
qed

lemma enterString_keys:
  "s \<noteq> [] \<Longrightarrow> distinct (map fst (head (enterString s FrequencyTable_new)))
     \<and> set (map fst (head (enterString s FrequencyTable_new))) = set s"
  using foldl_countCharacter_keys [of "[]" s]
  by (simp add: enterString_def MakeTable_def sethuffmanString_def isEmpty_def
                FrequencyTable_new_def)

subsection \<open>The codes of a tree with distinct leaves\<close>

lemma snd_comp_cons: "snd \<circ> (\<lambda>(p, c). (b # p, c)) = snd"
  by (auto simp: fun_eq_iff)

lemma code_pairs_symbols:
  "map snd (code_pairs (Some (HuffmanNode C f l r))) =
     (if l = None \<and> r = None then [C] else [])
     @ map snd (code_pairs l) @ map snd (code_pairs r)"
  by (simp add: snd_comp_cons)

lemma code_pairs_symbol_set:
  "snd ` set (code_pairs (Some (HuffmanNode C f l r))) =
     (if l = None \<and> r = None then {C} else {})
     \<union> snd ` set (code_pairs l) \<union> snd ` set (code_pairs r)"
  using arg_cong [OF code_pairs_symbols [of C f l r], of set] by (simp only: set_map set_append) auto

lemma buildCodes_other:
  "c \<notin> snd ` set (code_pairs t) \<Longrightarrow> buildCodes t code codes c = codes c"
proof (induction t code codes rule: buildCodes.induct)
  case (1 code codes)
  then show ?case by simp
next
  case (2 C f l r code codes)
  define codes1 where "codes1 = (if l = None \<and> r = None then codes(C \<mapsto> code) else codes)"
  define codes2 where "codes2 = buildCodes l (code @ ''0'') codes1"
  have nl: "c \<notin> snd ` set (code_pairs l)" and nr: "c \<notin> snd ` set (code_pairs r)"
    using "2.prems" unfolding code_pairs_symbol_set by auto
  have "l = None \<and> r = None \<Longrightarrow> c \<noteq> C"
    using "2.prems" unfolding code_pairs_symbol_set by auto
  then have "codes1 c = codes c" by (simp add: codes1_def)
  moreover have "codes2 c = codes1 c"
    unfolding codes2_def using "2.IH"(1) [OF codes1_def nl] .
  moreover have "buildCodes r (code @ ''1'') codes2 c = codes2 c"
    using "2.IH"(2) [OF codes1_def codes2_def nr] .
  ultimately show ?case by (simp add: Let_def codes1_def codes2_def)
qed

lemma buildCodes_complete:
  "distinct (map snd (code_pairs t)) \<Longrightarrow> (p, c) \<in> set (code_pairs t)
     \<Longrightarrow> buildCodes t code codes c = Some (code @ p)"
proof (induction t code codes arbitrary: p rule: buildCodes.induct)
  case (1 code codes)
  then show ?case by simp
next
  case (2 C f l r code codes)
  define codes1 where "codes1 = (if l = None \<and> r = None then codes(C \<mapsto> code) else codes)"
  define codes2 where "codes2 = buildCodes l (code @ ''0'') codes1"
  have res: "buildCodes (Some (HuffmanNode C f l r)) code codes c
               = buildCodes r (code @ ''1'') codes2 c"
    by (simp add: Let_def codes1_def codes2_def)
  show ?case
  proof (cases "l = None \<and> r = None")
    case True
    then show ?thesis using "2.prems" by simp
  next
    case False
    have d: "distinct (map snd (code_pairs l) @ map snd (code_pairs r))"
      using "2.prems"(1) False unfolding code_pairs_symbols by simp
    from "2.prems"(2) False consider
      q where "p = CHR ''0'' # q" "(q, c) \<in> set (code_pairs l)"
      | q where "p = CHR ''1'' # q" "(q, c) \<in> set (code_pairs r)"
      by auto
    then show ?thesis
    proof cases
      case 1
      have "codes2 c = Some ((code @ ''0'') @ q)"
        unfolding codes2_def using "2.IH"(1) [OF codes1_def _ 1(2)] d by simp
      moreover have "c \<notin> snd ` set (code_pairs r)"
        using d 1(2) by (force simp: image_iff)
      ultimately show ?thesis using res buildCodes_other [of c r] 1(1) by simp
    next
      case 2
      have "buildCodes r (code @ ''1'') codes2 c = Some ((code @ ''1'') @ q)"
        using "2.IH"(2) [OF codes1_def codes2_def _ 2(2)] d by simp
      then show ?thesis using res 2(1) by simp
    qed
  qed
qed

lemma generateCodes_complete:
  "distinct (map snd (code_pairs root)) \<Longrightarrow> (p, c) \<in> set (code_pairs root)
     \<Longrightarrow> generateCodes root c = Some p"
  using buildCodes_complete [of root p c "[]" Map.empty] by (simp add: generateCodes_def)

section \<open>The decoder\<close>

lemma decodeLoop_codeword:
  "full n \<Longrightarrow> \<not> (left n = None \<and> right n = None) \<Longrightarrow> (p, c) \<in> set (code_pairs (Some n))
     \<Longrightarrow> decodeLoop root (Some n) (p @ rest) acc = decodeLoop root root rest (acc @ [c])"
proof (induction n arbitrary: p acc rule: full.induct)
  case (2 C f a b)
  have step: "decodeLoop root (Some (HuffmanNode C f (Some a) (Some b))) ((d # q) @ rest) acc
                = decodeLoop root root rest (acc @ [c])"
    if q: "(q, c) \<in> set (code_pairs (Some m))" and m: "m = (if d = CHR ''0'' then a else b)"
      and IH: "\<And>p acc. \<not> (left m = None \<and> right m = None) \<Longrightarrow> (p, c) \<in> set (code_pairs (Some m))
                 \<Longrightarrow> decodeLoop root (Some m) (p @ rest) acc
                       = decodeLoop root root rest (acc @ [c])"
    for d q m
  proof (cases "left m = None \<and> right m = None")
    case True
    then have "q = [] \<and> c = Character m" using q by (cases m) auto
    then show ?thesis using True m by auto
  next
    case False
    then show ?thesis using IH [OF False q, of acc] m by auto
  qed
  have fa: "full a" and fb: "full b" using "2.prems"(1) by simp_all
  from "2.prems"(3) consider
    q where "p = CHR ''0'' # q" "(q, c) \<in> set (code_pairs (Some a))"
    | q where "p = CHR ''1'' # q" "(q, c) \<in> set (code_pairs (Some b))"
    by auto
  then show ?case
  proof cases
    case 1
    show ?thesis unfolding 1(1)
      by (rule step [OF 1(2)]) (simp_all add: "2.IH"(1) [OF fa])
  next
    case 2
    show ?thesis unfolding 2(1)
      by (rule step [OF 2(2)]) (simp_all add: "2.IH"(2) [OF fb])
  qed
qed simp_all

lemma decodeLoop_partial:
  "full n \<Longrightarrow> \<not> (left n = None \<and> right n = None)
     \<Longrightarrow> (part @ rest, c) \<in> set (code_pairs (Some n)) \<Longrightarrow> rest \<noteq> []
     \<Longrightarrow> \<exists>m. decodeLoop root (Some n) part acc = Inr (Some m, acc)
            \<and> size m \<le> size n \<and> (part \<noteq> [] \<longrightarrow> size m < size n)"
proof (induction n arbitrary: part rule: full.induct)
  case (2 C f a b)
  let ?n = "HuffmanNode C f (Some a) (Some b)"
  show ?case
  proof (cases part)
    case Nil
    then show ?thesis by simp
  next
    case (Cons d q)
    define m where "m = (if d = CHR ''0'' then a else b)"
    have fm: "full m" using "2.prems"(1) by (simp add: m_def)
    have q: "(q @ rest, c) \<in> set (code_pairs (Some m))"
      using "2.prems"(3) Cons by (auto simp: m_def)
    have nl: "\<not> (left m = None \<and> right m = None)"
    proof
      assume "left m = None \<and> right m = None"
      then have "q @ rest = []" using q by (cases m) auto
      then show False using "2.prems"(4) by simp
    qed
    have "\<exists>k. decodeLoop root (Some m) q acc = Inr (Some k, acc)
            \<and> size k \<le> size m \<and> (q \<noteq> [] \<longrightarrow> size k < size m)"
    proof (cases "d = CHR ''0''")
      case True
      then show ?thesis using "2.IH"(1) [of q] fm nl q "2.prems"(4) by (simp add: m_def)
    next
      case False
      then show ?thesis using "2.IH"(2) [of q] fm nl q "2.prems"(4) by (simp add: m_def)
    qed
    then obtain k where k: "decodeLoop root (Some m) q acc = Inr (Some k, acc)"
      "size k \<le> size m" by blast
    have "decodeLoop root (Some ?n) part acc = decodeLoop root (Some m) q acc"
      using Cons nl by (auto simp: m_def)
    moreover have "size m < size ?n" by (simp add: m_def)
    ultimately show ?thesis using k by auto
  qed
qed simp_all

lemma decodeLoop_concat:
  assumes "full t" and "\<not> (left t = None \<and> right t = None)"
    and "\<forall>c\<in>set S. (code c, c) \<in> set (code_pairs (Some t))"
  shows "decodeLoop (Some t) (Some t) (concat (map code S) @ rest) acc
           = decodeLoop (Some t) (Some t) rest (acc @ S)"
  using assms(3)
proof (induction S arbitrary: acc)
  case Nil
  then show ?case by simp
next
  case (Cons c S)
  have "decodeLoop (Some t) (Some t) (code c @ (concat (map code S) @ rest)) acc
          = decodeLoop (Some t) (Some t) (concat (map code S) @ rest) (acc @ [c])"
    using decodeLoop_codeword [OF assms(1,2)] Cons.prems by simp
  then show ?case using Cons.IH [of "acc @ [c]"] Cons.prems by simp
qed

section \<open>The steps of main on at least two distinct symbols\<close>

lemma built_tree:
  assumes "2 \<le> card (set S)"
  shows "\<exists>t. buildTree (enterString S FrequencyTable_new) = Inr (Some t) \<and> full t
           \<and> \<not> (left t = None \<and> right t = None)
           \<and> distinct (map snd (code_pairs (Some t)))
           \<and> snd ` set (code_pairs (Some t)) = set S"
proof -
  let ?table = "enterString S FrequencyTable_new"
  have ne: "S \<noteq> []" using assms by auto
  have keys: "distinct (map fst (head ?table))" "set (map fst (head ?table)) = set S"
    using enterString_keys [OF ne] by simp_all
  have hne: "head ?table \<noteq> []" using keys(2) ne by auto
  have "\<exists>t. buildTree ?table = Inr (Some t) \<and> full t
          \<and> leaves t = sum_list (map (\<lambda>(C, f). leaves (newHuffmanNode C f)) (head ?table))"
    by (rule buildTree_invariant [of full leaves, OF full_merged leaves_merged _ hne])
       (simp_all add: newHuffmanNode_def)
  then obtain t where t: "buildTree ?table = Inr (Some t)" "full t"
    "leaves t = sum_list (map (\<lambda>(C, f). leaves (newHuffmanNode C f)) (head ?table))"
    by blast
  have "sum_list (map (\<lambda>(C, f). leaves (newHuffmanNode C f)) xs) = mset (map fst xs)"
    for xs :: "(char \<times> 32 word) list"
    by (induction xs) (auto simp: leaves_newHuffmanNode)
  then have m: "mset (map snd (code_pairs (Some t))) = mset (map fst (head ?table))"
    using t(3) by (simp add: leaves_def)
  have d: "distinct (map snd (code_pairs (Some t)))"
    using m keys(1) by (metis mset_eq_imp_distinct_iff)
  have s: "snd ` set (code_pairs (Some t)) = set S"
    using m keys(2) by (metis set_map set_mset_mset)
  have "\<not> (left t = None \<and> right t = None)"
  proof
    assume "left t = None \<and> right t = None"
    then have "code_pairs (Some t) = [([], Character t)]" by (cases t) auto
    then have "set S = {Character t}" using s by simp
    then show False using assms by simp
  qed
  then show ?thesis using t(1,2) d s by blast
qed

text \<open>
  On every input with at least two distinct symbols the steps of main return the input: the
  tree has the input's symbols as its leaves, each once, every symbol's code is the path to
  its leaf, and decode follows these paths.
\<close>

lemma pipeline_round_trip:
  assumes "2 \<le> card (set S)"
  shows "pipeline S = Inr S"
proof -
  from built_tree [OF assms] obtain t
    where t: "buildTree (enterString S FrequencyTable_new) = Inr (Some t)" "full t"
      "\<not> (left t = None \<and> right t = None)" "distinct (map snd (code_pairs (Some t)))"
      "snd ` set (code_pairs (Some t)) = set S" by blast
  let ?codes = "generateCodes (Some t)"
  have code: "(codeOf ?codes c, c) \<in> set (code_pairs (Some t))" if "c \<in> set S" for c
  proof -
    from that t(5) obtain p where p: "(p, c) \<in> set (code_pairs (Some t))" by force
    then have "?codes c = Some p" using generateCodes_complete [OF t(4)] by simp
    then show ?thesis using p by (simp add: codeOf_def)
  qed
  have "decodeLoop (Some t) (Some t) (concat (map (codeOf ?codes) S) @ []) []
          = decodeLoop (Some t) (Some t) [] ([] @ S)"
    by (rule decodeLoop_concat [OF t(2,3)]) (simp add: code)
  then have "decode (Some t) (fst (encode S ?codes)) = Inr S"
    by (simp add: decode_def encode_def fst_encodeString)
  then show ?thesis using t(1) by (simp add: pipeline_def Let_def)
qed

text \<open>
  The encoded input followed by a non-empty proper prefix of a codeword: the loop ends with
  the cursor at an Internal node below the root, and decode returns the input.
\<close>

lemma decode_encoded_then_partial:
  assumes "2 \<le> card (set S)"
    and "buildTree (enterString S FrequencyTable_new) = Inr root"
    and "generateCodes root c = Some (part @ rest)" and "part \<noteq> []" and "rest \<noteq> []"
  shows "\<exists>cur. decodeLoop root root (fst (encode S (generateCodes root)) @ part) []
                 = Inr (cur, S)
           \<and> cur \<noteq> root
           \<and> decode root (fst (encode S (generateCodes root)) @ part) = Inr S"
proof -
  from built_tree [OF assms(1)] assms(2) obtain t
    where t: "root = Some t" "full t" "\<not> (left t = None \<and> right t = None)"
      "distinct (map snd (code_pairs (Some t)))" "snd ` set (code_pairs (Some t)) = set S"
    by auto
  let ?codes = "generateCodes (Some t)"
  have code: "(codeOf ?codes d, d) \<in> set (code_pairs (Some t))" if "d \<in> set S" for d
  proof -
    from that t(5) obtain p where p: "(p, d) \<in> set (code_pairs (Some t))" by force
    then have "?codes d = Some p" using generateCodes_complete [OF t(4)] by simp
    then show ?thesis using p by (simp add: codeOf_def)
  qed
  have pr: "(part @ rest, c) \<in> set (code_pairs (Some t))"
    using generateCodes_sound [of "Some t" c "part @ rest"] assms(3) t(1) by simp
  have "decodeLoop (Some t) (Some t) (concat (map (codeOf ?codes) S) @ part) []
          = decodeLoop (Some t) (Some t) part ([] @ S)"
    by (rule decodeLoop_concat [OF t(2,3)]) (simp add: code)
  moreover from decodeLoop_partial [OF t(2,3) pr assms(5), of "Some t" S] assms(4)
  obtain m where m: "decodeLoop (Some t) (Some t) part S = Inr (Some m, S)" "size m < size t"
    by auto
  ultimately have loop:
    "decodeLoop (Some t) (Some t) (fst (encode S ?codes) @ part) [] = Inr (Some m, S)"
    by (simp add: encode_def fst_encodeString)
  moreover have "Some m \<noteq> Some t" using m(2) by auto
  moreover have "decode (Some t) (fst (encode S ?codes) @ part) = Inr S"
    using loop by (simp add: decode_def)
  ultimately show ?thesis using t(1) by simp
qed

lemma decodeLoop_append:
  "decodeLoop root cur (xs @ ys) acc =
     (case decodeLoop root cur xs acc of
        Inl e \<Rightarrow> Inl e
      | Inr (cur', acc') \<Rightarrow> decodeLoop root cur' ys acc')"
  by (induction root cur xs acc rule: decodeLoop.induct) (auto split: option.splits)

lemma decodeLoop_acc:
  "decodeLoop root cur xs [] = Inr (cur', out) \<Longrightarrow>
     decodeLoop root cur xs acc = Inr (cur', acc @ out)"
proof (induction xs arbitrary: cur cur' acc out rule: rev_induct)
  case Nil
  then show ?case by simp
next
  case (snoc b xs)
  from snoc.prems obtain c1 o1 where 1: "decodeLoop root cur xs [] = Inr (c1, o1)"
    and 2: "decodeLoop root c1 [b] o1 = Inr (cur', out)"
    by (auto simp: decodeLoop_append split: sum.splits)
  have 3: "decodeLoop root cur xs acc = Inr (c1, acc @ o1)" by (rule snoc.IH [OF 1])
  from 2 have "decodeLoop root c1 [b] (acc @ o1) = Inr (cur', acc @ out)"
    by (auto split: option.splits if_splits)
  then show ?case using 3 by (simp add: decodeLoop_append)
qed

lemma decodeLoop_step_full:
  assumes "full n" and "\<not> (left n = None \<and> right n = None)"
  shows "\<exists>m. (if b = CHR ''0'' then left n else right n) = Some m \<and> full m
           \<and> (\<forall>acc. decodeLoop root (Some n) [b] acc =
                 (if left m = None \<and> right m = None then Inr (root, acc @ [Character m])
                  else Inr (Some m, acc)))"
  using assms by (cases n rule: full.cases) auto

lemma decodeLoop_parse:
  assumes t: "full t" "\<not> (left t = None \<and> right t = None)"
  shows "\<exists>n out whole part.
           decodeLoop (Some t) (Some t) bits [] = Inr (Some n, out)
           \<and> full n \<and> \<not> (left n = None \<and> right n = None)
           \<and> bits = whole @ part
           \<and> decodeLoop (Some t) (Some t) whole [] = Inr (Some t, out)
           \<and> decodeLoop (Some t) (Some t) part [] = Inr (Some n, [])"
proof (induction bits rule: rev_induct)
  case Nil
  show ?case using t by (intro exI [of _ t] exI [of _ "[]"]) simp
next
  case (snoc b bits)
  then obtain n out whole part
    where l: "decodeLoop (Some t) (Some t) bits [] = Inr (Some n, out)"
      and n: "full n" "\<not> (left n = None \<and> right n = None)"
      and s: "bits = whole @ part"
      and w: "decodeLoop (Some t) (Some t) whole [] = Inr (Some t, out)"
      and p: "decodeLoop (Some t) (Some t) part [] = Inr (Some n, [])"
    by blast
  from decodeLoop_step_full [OF n, of b "Some t"] obtain m
    where m: "full m"
      and step: "\<And>acc. decodeLoop (Some t) (Some n) [b] acc =
               (if left m = None \<and> right m = None then Inr (Some t, acc @ [Character m])
                else Inr (Some m, acc))"
    by blast
  have all: "decodeLoop (Some t) (Some t) (bits @ [b]) [] = decodeLoop (Some t) (Some n) [b] out"
    using l by (simp add: decodeLoop_append)
  show ?case
  proof (cases "left m = None \<and> right m = None")
    case True
    have "decodeLoop (Some t) (Some t) (bits @ [b]) [] = Inr (Some t, out @ [Character m])"
      using all step True by simp
    then show ?thesis using t
      by (intro exI [of _ t] exI [of _ "out @ [Character m]"] exI [of _ "bits @ [b]"]
                exI [of _ "[]"]) simp
  next
    case False
    have 1: "decodeLoop (Some t) (Some t) (bits @ [b]) [] = Inr (Some m, out)"
      using all step False by simp
    have 2: "decodeLoop (Some t) (Some t) (part @ [b]) [] = Inr (Some m, [])"
      using p step [of "[]"] False by (simp add: decodeLoop_append)
    show ?thesis using 1 2 m False s w
      by (intro exI [of _ m] exI [of _ out] exI [of _ whole] exI [of _ "part @ [b]"]) simp
  qed
qed

lemma built_tree_two_entries:
  assumes "buildTree table = Inr root" and "2 \<le> length (head table)"
  shows "\<exists>t. root = Some t \<and> full t \<and> \<not> (left t = None \<and> right t = None)"
proof -
  have ne: "head table \<noteq> []" using assms(2) by auto
  have "\<exists>t. buildTree table = Inr (Some t) \<and> full t
          \<and> leaves t = sum_list (map (\<lambda>(C, f). leaves (newHuffmanNode C f)) (head table))"
    by (rule buildTree_invariant [of full leaves, OF full_merged leaves_merged _ ne])
       (simp_all add: newHuffmanNode_def)
  then obtain t where t: "root = Some t" "full t"
    "leaves t = sum_list (map (\<lambda>(C, f). leaves (newHuffmanNode C f)) (head table))"
    using assms(1) by auto
  have "sum_list (map (\<lambda>(C, f). leaves (newHuffmanNode C f)) xs) = mset (map fst xs)"
    for xs :: "(char \<times> 32 word) list"
    by (induction xs) (auto simp: leaves_newHuffmanNode)
  then have "size (leaves t) = length (head table)" using t(3) by simp
  then have big: "2 \<le> size (leaves t)" using assms(2) by simp
  have "\<not> (left t = None \<and> right t = None)"
  proof
    assume "left t = None \<and> right t = None"
    then have "size (leaves t) = 1" by (cases t) (auto simp: leaves_def)
    then show False using big by simp
  qed
  then show ?thesis using t by blast
qed

lemma enterString_two_entries:
  assumes "2 \<le> length (head (enterString S FrequencyTable_new))"
  shows "2 \<le> card (set S)"
proof -
  have "S \<noteq> []"
  proof
    assume "S = []"
    then have "head (enterString S FrequencyTable_new) = []"
      by (simp add: enterString_def MakeTable_def sethuffmanString_def isEmpty_def
                    FrequencyTable_new_def)
    then show False using assms by simp
  qed
  from enterString_keys [OF this]
  have "card (set S) = length (map fst (head (enterString S FrequencyTable_new)))"
    by (metis distinct_card)
  then show ?thesis using assms by simp
qed

text \<open>
  C7, as the code has it. decode has no test at the end of the input. On a tree that buildTree
  returned for a table with at least two entries, decode returns a symbol sequence for every
  bit-string, wherever the cursor is when the input ends: the stream splits into a part that
  the loop consumes from the root back to the root, whose symbols are what decode returns,
  and a remainder that leads from the root to the final cursor and yields no symbol. So the
  encoded input followed by a non-empty proper prefix of a codeword ends below the root and
  decodes to the input.
\<close>

theorem decode_ignores_incomplete_codeword:
  assumes "buildTree table = Inr root" and "2 \<le> length (head table)"
  shows "(\<exists>cur out whole part.
            decodeLoop root root bits [] = Inr (cur, out) \<and> decode root bits = Inr out
            \<and> bits = whole @ part
            \<and> decodeLoop root root whole [] = Inr (root, out)
            \<and> decodeLoop root root part [] = Inr (cur, []))
         \<and> (table = enterString S FrequencyTable_new
              \<and> generateCodes root c = Some (partial @ rest) \<and> partial \<noteq> [] \<and> rest \<noteq> []
             \<longrightarrow> (\<exists>cur. decodeLoop root root (fst (encode S (generateCodes root)) @ partial) []
                           = Inr (cur, S)
                      \<and> cur \<noteq> root
                      \<and> decode root (fst (encode S (generateCodes root)) @ partial) = Inr S))"
proof (intro conjI impI)
  from built_tree_two_entries [OF assms] obtain t
    where t: "root = Some t" "full t" "\<not> (left t = None \<and> right t = None)" by blast
  from decodeLoop_parse [OF t(2,3), of bits] obtain n out whole part
    where p: "decodeLoop (Some t) (Some t) bits [] = Inr (Some n, out)"
      "bits = whole @ part"
      "decodeLoop (Some t) (Some t) whole [] = Inr (Some t, out)"
      "decodeLoop (Some t) (Some t) part [] = Inr (Some n, [])"
    by blast
  have "decode (Some t) bits = Inr out" using p(1) by (simp add: decode_def)
  then show "\<exists>cur out whole part.
            decodeLoop root root bits [] = Inr (cur, out) \<and> decode root bits = Inr out
            \<and> bits = whole @ part
            \<and> decodeLoop root root whole [] = Inr (root, out)
            \<and> decodeLoop root root part [] = Inr (cur, [])"
    using p t(1) by blast
next
  assume a: "table = enterString S FrequencyTable_new
              \<and> generateCodes root c = Some (partial @ rest) \<and> partial \<noteq> [] \<and> rest \<noteq> []"
  then have "2 \<le> card (set S)" using assms(2) enterString_two_entries by blast
  then show "\<exists>cur. decodeLoop root root (fst (encode S (generateCodes root)) @ partial) []
                           = Inr (cur, S)
                      \<and> cur \<noteq> root
                      \<and> decode root (fst (encode S (generateCodes root)) @ partial) = Inr S"
    using decode_encoded_then_partial [of S root c partial rest] assms(1) a by blast
qed

theorem decode_ignores_incomplete_codeword_witness:
  "buildTree (enterString ''abccc'' FrequencyTable_new)
       = Inr (Some (HuffmanNode (CHR 0x00) 5
                (Some (HuffmanNode (CHR 0x00) 2
                         (Some (HuffmanNode (CHR ''a'') 1 None None))
                         (Some (HuffmanNode (CHR ''b'') 1 None None))))
                (Some (HuffmanNode (CHR ''c'') 3 None None))))
   \<and> 2 \<le> length (head (enterString ''abccc'' FrequencyTable_new))
   \<and> generateCodes (Some (HuffmanNode (CHR 0x00) 5
                (Some (HuffmanNode (CHR 0x00) 2
                         (Some (HuffmanNode (CHR ''a'') 1 None None))
                         (Some (HuffmanNode (CHR ''b'') 1 None None))))
                (Some (HuffmanNode (CHR ''c'') 3 None None)))) (CHR ''a'') = Some (''0'' @ ''0'')
   \<and> decode (Some (HuffmanNode (CHR 0x00) 5
                (Some (HuffmanNode (CHR 0x00) 2
                         (Some (HuffmanNode (CHR ''a'') 1 None None))
                         (Some (HuffmanNode (CHR ''b'') 1 None None))))
                (Some (HuffmanNode (CHR ''c'') 3 None None))))
        (fst (encode ''abccc'' (generateCodes (Some (HuffmanNode (CHR 0x00) 5
                (Some (HuffmanNode (CHR 0x00) 2
                         (Some (HuffmanNode (CHR ''a'') 1 None None))
                         (Some (HuffmanNode (CHR ''b'') 1 None None))))
                (Some (HuffmanNode (CHR ''c'') 3 None None)))))) @ ''0'')
       = Inr ''abccc''
   \<and> (\<exists>out. decode (Some (HuffmanNode (CHR 0x00) 5
                (Some (HuffmanNode (CHR 0x00) 2
                         (Some (HuffmanNode (CHR ''a'') 1 None None))
                         (Some (HuffmanNode (CHR ''b'') 1 None None))))
                (Some (HuffmanNode (CHR ''c'') 3 None None)))) ''0'' = Inr out)"
proof -
  let ?t = "Some (HuffmanNode (CHR 0x00) 5
                (Some (HuffmanNode (CHR 0x00) 2
                         (Some (HuffmanNode (CHR ''a'') 1 None None))
                         (Some (HuffmanNode (CHR ''b'') 1 None None))))
                (Some (HuffmanNode (CHR ''c'') 3 None None)))"
  let ?table = "enterString ''abccc'' FrequencyTable_new"
  have b: "buildTree ?table = Inr ?t"
    by code_simp
  have l: "2 \<le> length (head ?table)"
    by code_simp
  have g: "generateCodes ?t (CHR ''a'') = Some (''0'' @ ''0'')"
    by (simp add: generateCodes_def)
  have ne: "''0'' \<noteq> []" by simp
  from decode_ignores_incomplete_codeword [OF b l, of "''0''" "''abccc''" "CHR ''a''" "''0''" "''0''"]
  have 1: "\<exists>out. decode ?t ''0'' = Inr out"
    and 2: "decode ?t (fst (encode ''abccc'' (generateCodes ?t)) @ ''0'') = Inr ''abccc''"
    using g ne by blast+
  show ?thesis
    by (intro conjI) (rule b l g 1 2)+
qed

text \<open>
  C7 as stated fails: for the tree of \<open>abccc\<close> the encoded string is \<open>0001111\<close>; with
  a trailing \<open>0\<close> the loop ends at the Internal node above \<open>a\<close> and \<open>b\<close>, and decode
  returns \<open>abccc\<close>.
\<close>

theorem decode_trailing_zero_counterexample:
  "fst (encode ''abccc'' (generateCodes (Some (HuffmanNode (CHR 0x00) 5
                (Some (HuffmanNode (CHR 0x00) 2
                         (Some (HuffmanNode (CHR ''a'') 1 None None))
                         (Some (HuffmanNode (CHR ''b'') 1 None None))))
                (Some (HuffmanNode (CHR ''c'') 3 None None)))))) = ''0001111''
   \<and> decodeLoop (Some (HuffmanNode (CHR 0x00) 5
                (Some (HuffmanNode (CHR 0x00) 2
                         (Some (HuffmanNode (CHR ''a'') 1 None None))
                         (Some (HuffmanNode (CHR ''b'') 1 None None))))
                (Some (HuffmanNode (CHR ''c'') 3 None None))))
              (Some (HuffmanNode (CHR 0x00) 5
                (Some (HuffmanNode (CHR 0x00) 2
                         (Some (HuffmanNode (CHR ''a'') 1 None None))
                         (Some (HuffmanNode (CHR ''b'') 1 None None))))
                (Some (HuffmanNode (CHR ''c'') 3 None None))))
              ''00011110'' []
       = Inr (Some (HuffmanNode (CHR 0x00) 2
                         (Some (HuffmanNode (CHR ''a'') 1 None None))
                         (Some (HuffmanNode (CHR ''b'') 1 None None))), ''abccc'')
   \<and> decode (Some (HuffmanNode (CHR 0x00) 5
                (Some (HuffmanNode (CHR 0x00) 2
                         (Some (HuffmanNode (CHR ''a'') 1 None None))
                         (Some (HuffmanNode (CHR ''b'') 1 None None))))
                (Some (HuffmanNode (CHR ''c'') 3 None None)))) ''00011110''
       = Inr ''abccc''"
  by code_simp

end
